theory Spec2Isabelle
  imports Complex_Main
begin

section \<open>JavaScript numbers\<close>

text \<open>
  A JavaScript Number is an IEEE 754 binary64 value.  The finite values are
  carried by the real they denote; the two infinities and NaN are separate
  constructors.  The sign of zero is not kept: \<open>-0\<close> and \<open>+0\<close> are the same
  value here (they are equal under \<open>==\<close> and both falsy in the program).
\<close>

datatype jsnum = Fin real | PInf | NInf | NaN

text \<open>Rounding to the nearest integer, ties to the even one.\<close>

definition round_even :: "real \<Rightarrow> int" where
  "round_even x =
     (let f = \<lfloor>x\<rfloor>; d = x - of_int f
      in if d < 1 / 2 then f
         else if 1 / 2 < d then f + 1
         else if even f then f else f + 1)"

text \<open>
  The binade of a non-negative real: the exponent \<open>e\<close> with
  \<open>2\<^sup>e \<le> x < 2\<^sup>e\<^sup>+\<^sup>1\<close>, searched upwards from 0 for \<open>x \<ge> 1\<close> and downwards
  otherwise, and kept inside the exponent range \<open>-1022 .. 1024\<close> of binary64
  (below \<open>2\<^sup>-\<^sup>1\<^sup>0\<^sup>2\<^sup>2\<close> the numbers are subnormal and share the exponent -1022).
\<close>

function expo_up :: "real \<Rightarrow> int \<Rightarrow> int" where
  "expo_up x e = (if 1024 \<le> e \<or> x < 2 powi (e + 1) then e else expo_up x (e + 1))"
  by pat_completeness auto
termination
  by (relation "measure (\<lambda>(x, e). nat (1024 - e))") auto

function expo_down :: "real \<Rightarrow> int \<Rightarrow> int" where
  "expo_down x e = (if e \<le> - 1022 \<or> 2 powi e \<le> x then e else expo_down x (e - 1))"
  by pat_completeness auto
termination
  by (relation "measure (\<lambda>(x, e). nat (e + 1022))") auto

declare expo_up.simps [simp del] expo_down.simps [simp del]

definition expo :: "real \<Rightarrow> int" where
  "expo x = (if 1 \<le> x then expo_up x 0 else expo_down x 0)"

text \<open>
  Rounding of a real to the binary64 grid, with 53 significant bits: the
  spacing of the grid in the binade of \<open>x\<close> is \<open>2\<^sup>e\<^sup>-\<^sup>5\<^sup>2\<close>.
\<close>

definition rnd :: "real \<Rightarrow> real" where
  "rnd x = of_int (round_even (x / 2 powi (expo \<bar>x\<bar> - 52))) * 2 powi (expo \<bar>x\<bar> - 52)"

text \<open>
  The two neighbours of a real on that grid: the largest grid point that is at
  most \<open>x\<close> and the smallest that is at least \<open>x\<close>.  They coincide when \<open>x\<close> is
  itself a binary64 number.
\<close>

definition rnd_down :: "real \<Rightarrow> real" where
  "rnd_down x = of_int \<lfloor>x / 2 powi (expo \<bar>x\<bar> - 52)\<rfloor> * 2 powi (expo \<bar>x\<bar> - 52)"

definition rnd_up :: "real \<Rightarrow> real" where
  "rnd_up x = of_int \<lceil>x / 2 powi (expo \<bar>x\<bar> - 52)\<rceil> * 2 powi (expo \<bar>x\<bar> - 52)"

text \<open>The result of an arithmetic operation whose exact value is \<open>x\<close>.\<close>

definition fl :: "real \<Rightarrow> jsnum" where
  "fl x = (let y = rnd x
           in if 2 ^ 1024 \<le> \<bar>y\<bar> then (if 0 < x then PInf else NInf) else Fin y)"

fun js_neg :: "jsnum \<Rightarrow> jsnum" where
  "js_neg (Fin a) = Fin (- a)"
| "js_neg PInf = NInf"
| "js_neg NInf = PInf"
| "js_neg NaN = NaN"

fun js_add :: "jsnum \<Rightarrow> jsnum \<Rightarrow> jsnum" where
  "js_add NaN _ = NaN"
| "js_add _ NaN = NaN"
| "js_add (Fin a) (Fin b) = fl (a + b)"
| "js_add PInf NInf = NaN"
| "js_add NInf PInf = NaN"
| "js_add PInf _ = PInf"
| "js_add NInf _ = NInf"
| "js_add (Fin a) PInf = PInf"
| "js_add (Fin a) NInf = NInf"

definition js_sub :: "jsnum \<Rightarrow> jsnum \<Rightarrow> jsnum" where
  "js_sub a b = js_add a (js_neg b)"

text \<open>The sign of a number, for the products and quotients with an infinity.\<close>

fun js_sign :: "jsnum \<Rightarrow> int" where
  "js_sign (Fin a) = (if a < 0 then - 1 else if a = 0 then 0 else 1)"
| "js_sign PInf = 1"
| "js_sign NInf = - 1"
| "js_sign NaN = 0"

definition inf_of_sign :: "int \<Rightarrow> jsnum" where
  "inf_of_sign s = (if s = 0 then NaN else if 0 < s then PInf else NInf)"

fun js_mul :: "jsnum \<Rightarrow> jsnum \<Rightarrow> jsnum" where
  "js_mul NaN _ = NaN"
| "js_mul _ NaN = NaN"
| "js_mul (Fin a) (Fin b) = fl (a * b)"
| "js_mul a b = inf_of_sign (js_sign a * js_sign b)"

text \<open>
  Division.  A finite non-zero number divided by zero is an infinity with the
  sign of the dividend (the divisor being taken as \<open>+0\<close>), and \<open>0 / 0\<close> is NaN.
\<close>

fun js_div :: "jsnum \<Rightarrow> jsnum \<Rightarrow> jsnum" where
  "js_div NaN _ = NaN"
| "js_div _ NaN = NaN"
| "js_div (Fin a) (Fin b) = (if b = 0 then inf_of_sign (js_sign (Fin a)) else fl (a / b))"
| "js_div (Fin a) _ = Fin 0"
| "js_div a (Fin b) = inf_of_sign (js_sign a * (if b < 0 then - 1 else 1))"
| "js_div _ _ = NaN"

text \<open>The comparisons \<open><\<close>, \<open>>=\<close> and \<open>==\<close> on numbers: false as soon as one side is NaN.\<close>

fun js_lt :: "jsnum \<Rightarrow> jsnum \<Rightarrow> bool" where
  "js_lt NaN _ = False"
| "js_lt _ NaN = False"
| "js_lt (Fin a) (Fin b) = (a < b)"
| "js_lt NInf b = (b \<noteq> NInf)"
| "js_lt a PInf = (a \<noteq> PInf)"
| "js_lt _ _ = False"

fun js_eq :: "jsnum \<Rightarrow> jsnum \<Rightarrow> bool" where
  "js_eq NaN _ = False"
| "js_eq _ NaN = False"
| "js_eq a b = (a = b)"

definition js_ge :: "jsnum \<Rightarrow> jsnum \<Rightarrow> bool" where
  "js_ge a b = (js_lt b a \<or> js_eq a b)"


section \<open>JavaScript values and the geometry readers\<close>

text \<open>
  The values a layout property can hold: \<open>undefined\<close> (also what reading a
  missing property gives), \<open>null\<close>, a boolean or a number.  Strings and objects
  do not occur as layout properties and are left out.
\<close>

datatype jsval = JUndefined | JNull | JBool bool | JNum jsnum

fun truthy :: "jsval \<Rightarrow> bool" where
  "truthy JUndefined = False"
| "truthy JNull = False"
| "truthy (JBool b) = b"
| "truthy (JNum n) = (n \<noteq> Fin 0 \<and> n \<noteq> NaN)"

text \<open>\<open>a || b\<close> where \<open>b\<close> is a constant.\<close>

definition js_or :: "jsval \<Rightarrow> jsval \<Rightarrow> jsval" where
  "js_or a b = (if truthy a then a else b)"

fun is_number :: "jsval \<Rightarrow> bool" where
  "is_number (JNum n) = True"
| "is_number _ = False"

text \<open>
  An element is what the readers see of it: the value of each named property,
  \<open>undefined\<close> for a property the object does not have.
\<close>

type_synonym element = "string \<Rightarrow> jsval"

record rect =
  r_top :: jsval
  r_left :: jsval
  r_height :: jsval
  r_width :: jsval

datatype js_error = TypeError | BadState

text \<open>
  The page: \<open>window\<close>, and \<open>document.documentElement\<close> and \<open>document.body\<close>, either
  of which can be \<open>null\<close>.
\<close>

record host =
  window :: element
  documentElement :: "element option"
  body :: "element option"

text \<open>Reading a property of an object reference that may be \<open>null\<close>.\<close>

definition read_prop :: "element option \<Rightarrow> string \<Rightarrow> js_error + jsval" where
  "read_prop obj name = (case obj of None \<Rightarrow> Inl TypeError | Some el \<Rightarrow> Inr (el name))"

text \<open>
  A chain \<open>a || b || ... || 0\<close>: the operands are evaluated from the left, the
  first truthy one is the result, and an operand that throws is only reached
  when all before it are falsy.
\<close>

fun or_chain :: "(js_error + jsval) list \<Rightarrow> js_error + jsval" where
  "or_chain [] = Inr (JNum (Fin 0))"
| "or_chain (Inl e # rest) = Inl e"
| "or_chain (Inr v # rest) = (if truthy v then Inr v else or_chain rest)"

definition getScroll :: "host \<Rightarrow> element option \<Rightarrow> js_error + rect" where
  "getScroll h el =
     (case el of
        Some e \<Rightarrow>
          Inr \<lparr> r_top = js_or (e ''scrollTop'') (JNum (Fin 0)),
                r_left = js_or (e ''scrollLeft'') (JNum (Fin 0)),
                r_height = js_or (e ''scrollHeight'') (JNum (Fin 0)),
                r_width = js_or (e ''scrollWidth'') (JNum (Fin 0)) \<rparr>
      | None \<Rightarrow>
          (case or_chain [Inr (window h ''pageYOffset''),
                          read_prop (documentElement h) ''scrollTop'',
                          read_prop (body h) ''scrollTop''] of
             Inl err \<Rightarrow> Inl err
           | Inr t \<Rightarrow>
          (case or_chain [Inr (window h ''pageXOffset''),
                          read_prop (documentElement h) ''scrollLeft'',
                          read_prop (body h) ''scrollLeft''] of
             Inl err \<Rightarrow> Inl err
           | Inr l \<Rightarrow>
          (case or_chain [read_prop (documentElement h) ''scrollHeight'',
                          read_prop (body h) ''scrollHeight''] of
             Inl err \<Rightarrow> Inl err
           | Inr hg \<Rightarrow>
          (case or_chain [read_prop (documentElement h) ''scrollWidth'',
                          read_prop (body h) ''scrollWidth''] of
             Inl err \<Rightarrow> Inl err
           | Inr w \<Rightarrow> Inr \<lparr> r_top = t, r_left = l, r_height = hg, r_width = w \<rparr>)))))"

definition getOffset :: "element \<Rightarrow> rect" where
  "getOffset el =
     \<lparr> r_top = js_or (el ''offsetTop'') (JNum (Fin 0)),
       r_left = js_or (el ''offsetLeft'') (JNum (Fin 0)),
       r_height = js_or (el ''offsetHeight'') (JNum (Fin 0)),
       r_width = js_or (el ''offsetWidth'') (JNum (Fin 0)) \<rparr>"

definition getClient :: "element \<Rightarrow> rect" where
  "getClient el =
     \<lparr> r_top = js_or (el ''clientTop'') (JNum (Fin 0)),
       r_left = js_or (el ''clientLeft'') (JNum (Fin 0)),
       r_height = js_or (el ''clientHeight'') (JNum (Fin 0)),
       r_width = js_or (el ''clientWidth'') (JNum (Fin 0)) \<rparr>"

text \<open>
  What a reader's field is, given the property it was read from: a number
  that is not NaN, 0 when the property is falsy, the property itself otherwise.
\<close>

definition coerced :: "jsval \<Rightarrow> jsval \<Rightarrow> bool" where
  "coerced p f \<longleftrightarrow>
     is_number f \<and> f \<noteq> JNum NaN \<and> (\<not> truthy p \<longrightarrow> f = JNum (Fin 0)) \<and> (truthy p \<longrightarrow> f = p)"

text \<open>
  \<open>ToNumber\<close> on these values, which is what the arithmetic and relational
  operators apply to their operands.
\<close>

fun to_number :: "jsval \<Rightarrow> jsnum" where
  "to_number JUndefined = NaN"
| "to_number JNull = Fin 0"
| "to_number (JBool b) = Fin (if b then 1 else 0)"
| "to_number (JNum n) = n"


section \<open>The easing function\<close>

text \<open>
  \<open>Math.pow(y, 3)\<close>.  The four arithmetic operations are correctly rounded in
  every engine, but ECMAScript leaves \<open>Math.pow\<close> implementation-approximated,
  and the result of an engine may differ from the correctly rounded cube in
  the last bit: for \<open>y = 0.8999999999999999\<close> the cube lies between the
  neighbouring numbers \<open>0.7289999999999998\<close> and \<open>0.7289999999999999\<close>, nearer
  to the first, and an engine may return the second.  The result is therefore
  taken to be one of
  the two binary64 neighbours of the exact cube (an error below one unit in
  the last place), and which of the two is left to the engine: the engine is a
  parameter \<open>up\<close>, and \<open>up y\<close> tells whether its \<open>pow\<close> returns the upper
  neighbour at \<open>y\<close>.  Where the cube is itself a binary64 number the two
  neighbours coincide and the result is exact.
\<close>

definition pow3 :: "(real \<Rightarrow> bool) \<Rightarrow> real \<Rightarrow> real" where
  "pow3 up y = (if up y then rnd_up (y * y * y) else rnd_down (y * y * y))"

fun js_pow3 :: "(real \<Rightarrow> bool) \<Rightarrow> jsnum \<Rightarrow> jsnum" where
  "js_pow3 up (Fin y) =
     (if 2 ^ 1024 \<le> \<bar>pow3 up y\<bar> then (if 0 < y then PInf else NInf) else Fin (pow3 up y))"
| "js_pow3 up PInf = PInf"
| "js_pow3 up NInf = NInf"
| "js_pow3 up NaN = NaN"

text \<open>\<open>easeInOutCubic\<close>, run by the engine \<open>up\<close>.\<close>

definition easeInOutCubic :: "(real \<Rightarrow> bool) \<Rightarrow> jsnum \<Rightarrow> jsnum" where
  "easeInOutCubic up x =
     (if js_lt x (Fin (1 / 2))
      then js_mul (js_mul (js_mul (Fin 4) x) x) x
      else js_sub (Fin 1) (js_div (js_pow3 up (js_add (js_mul (Fin (- 2)) x) (Fin 2))) (Fin 2)))"

text \<open>
  The two branches of \<open>easeInOutCubic\<close> on a real argument, with the rounding
  of each operation written out: \<open>4 * x * x * x\<close> and
  \<open>1 - Math.pow(-2 * x + 2, 3) / 2\<close>.
\<close>

definition cubic_in :: "real \<Rightarrow> real" where
  "cubic_in x = rnd (rnd (rnd (4 * x) * x) * x)"

definition cubic_out :: "(real \<Rightarrow> bool) \<Rightarrow> real \<Rightarrow> real" where
  "cubic_out up x = rnd (1 - rnd (pow3 up (rnd (rnd (- 2 * x) + 2)) / 2))"



section \<open>One animation: the closure of the static \<open>animate\<close>\<close>

text \<open>
  The variables captured by \<open>endAnimation\<close> and \<open>tick\<close>, together with what the
  host holds for them: whether the timeout behind \<open>timeoutMarker\<close> is still
  pending, and the handles of the animation frame requests for \<open>tick\<close> that
  have neither fired nor been cancelled.  \<open>tickMarker\<close> is \<open>None\<close> while it is
  undefined.  Handles are numbered in the order of the requests.
\<close>

record anim =
  t_begin :: jsnum
  t_end :: jsnum
  duration :: jsnum
  a_ease :: "jsnum \<Rightarrow> jsnum"
  flushed :: bool
  timeout_pending :: bool
  tickMarker :: "nat option"
  frames :: "nat list"
  next_frame :: nat

text \<open>
  A reading of \<open>Date.now()\<close>: an integral number of milliseconds (time values
  stay below \<open>8.64 \<times> 10\<^sup>1\<^sup>5\<close> in magnitude, hence are exact in binary64).
\<close>

definition clock :: "int \<Rightarrow> jsnum" where
  "clock t = Fin (of_int t)"

text \<open>
  The body of the static \<open>animate\<close>, called when the clock reads \<open>now\<close>.  The
  timeout is armed; the first frame request is made and its handle dropped.
\<close>

definition animate_static :: "(jsnum \<Rightarrow> jsnum) \<Rightarrow> jsnum \<Rightarrow> int \<Rightarrow> anim" where
  "animate_static ease d now =
     \<lparr> t_begin = clock now, t_end = js_add (clock now) d, duration = d, a_ease = ease,
       flushed = False, timeout_pending = True, tickMarker = None,
       frames = [0], next_frame = 1 \<rparr>"

text \<open>
  \<open>endAnimation\<close> and \<open>tick\<close>.  The callback \<open>setCallabck\<close> acts on a state of
  its own, of type \<open>'c\<close>, which is threaded through.
\<close>

definition endAnimation :: "(jsnum \<Rightarrow> 'c \<Rightarrow> 'c) \<Rightarrow> anim \<Rightarrow> 'c \<Rightarrow> anim \<times> 'c" where
  "endAnimation setCallabck a c =
     (let a1 = a\<lparr>timeout_pending := False\<rparr>;
          a2 = a1\<lparr>frames := (case tickMarker a1 of None \<Rightarrow> frames a1
                                | Some h \<Rightarrow> removeAll h (frames a1))\<rparr>
      in if \<not> flushed a2 then (a2\<lparr>flushed := True\<rparr>, setCallabck (Fin 1) c) else (a2, c))"

definition tick :: "(jsnum \<Rightarrow> 'c \<Rightarrow> 'c) \<Rightarrow> int \<Rightarrow> anim \<Rightarrow> 'c \<Rightarrow> anim \<times> 'c" where
  "tick setCallabck now a c =
     (if js_ge (clock now) (t_end a) then endAnimation setCallabck a c
      else if \<not> flushed a
      then (a\<lparr>tickMarker := Some (next_frame a), frames := frames a @ [next_frame a],
               next_frame := next_frame a + 1\<rparr>,
            setCallabck (a_ease a (js_div (js_sub (clock now) (t_begin a)) (duration a))) c)
      else (a, c))"

text \<open>
  What can happen to an animation: the host runs the timeout, the host runs
  the frame callback of request \<open>h\<close> while the clock reads \<open>now\<close>, or somebody
  calls the function that \<open>animate\<close> returned.  The host only runs what is
  pending, and a request that runs is no longer pending.
\<close>

datatype host_event = TimeoutFires | FrameFires nat int | CancelCall

fun fire :: "(jsnum \<Rightarrow> 'c \<Rightarrow> 'c) \<Rightarrow> host_event \<Rightarrow> anim \<Rightarrow> 'c \<Rightarrow> anim \<times> 'c" where
  "fire cb TimeoutFires a c =
     (if timeout_pending a then endAnimation cb (a\<lparr>timeout_pending := False\<rparr>) c else (a, c))"
| "fire cb (FrameFires h now) a c =
     (if h \<in> set (frames a) then tick cb now (a\<lparr>frames := removeAll h (frames a)\<rparr>) c
      else (a, c))"
| "fire cb CancelCall a c = endAnimation cb a c"

fun fire_all :: "(jsnum \<Rightarrow> 'c \<Rightarrow> 'c) \<Rightarrow> host_event list \<Rightarrow> anim \<Rightarrow> 'c \<Rightarrow> anim \<times> 'c" where
  "fire_all cb [] a c = (a, c)"
| "fire_all cb (ev # evs) a c = (case fire cb ev a c of (a', c') \<Rightarrow> fire_all cb evs a' c')"

text \<open>The callback that records the fractions it is called with.\<close>

definition record_call :: "jsnum \<Rightarrow> jsnum list \<Rightarrow> jsnum list" where
  "record_call p tr = tr @ [p]"


section \<open>The animation controller\<close>

text \<open>
  A job is one call of the controller's \<open>animate\<close>: the closure of the static
  \<open>animate\<close> and the \<open>from\<close>, \<open>to\<close> and \<open>setFunction\<close> captured by the callback
  given to it.  The set functions act on a state of type \<open>'a\<close>; a set function
  only writes there: it neither calls the controller nor throws.
\<close>

record 'a job =
  closure :: anim
  w_from :: jsnum
  w_to :: jsnum
  setFunction :: "jsnum \<Rightarrow> 'a \<Rightarrow> 'a"

text \<open>
  The controller.  \<open>cancel\<close> holds the index of the job whose \<open>endAnimation\<close> it
  refers to, \<open>None\<close> for \<open>null\<close>.  \<open>jobs\<close> are the closures created so far,
  \<open>target\<close> is the state the set functions write to, and \<open>calls\<close> lists the
  invocations of set functions so far, each with the job that made it.
\<close>

record 'a controller =
  cancel :: "nat option"
  easeFunction :: "jsnum \<Rightarrow> jsnum"
  animatingTo :: "jsnum option"
  jobs :: "'a job list"
  target :: 'a
  calls :: "(nat \<times> jsnum) list"

definition new_controller :: "(jsnum \<Rightarrow> jsnum) \<Rightarrow> 'a \<Rightarrow> 'a controller" where
  "new_controller ease t =
     \<lparr> cancel = None, easeFunction = ease, animatingTo = None, jobs = [], target = t, calls = [] \<rparr>"

text \<open>The getter \<open>isAnimating\<close>: \<open>this.animatingTo != null\<close>.\<close>

definition isAnimating :: "'a controller \<Rightarrow> bool" where
  "isAnimating s = (animatingTo s \<noteq> None)"

text \<open>The arrow function that \<open>animate\<close> passes as callback, for job \<open>i\<close>.\<close>

definition on_percent ::
  "nat \<Rightarrow> (jsnum \<Rightarrow> 'a \<Rightarrow> 'a) \<Rightarrow> jsnum \<Rightarrow> jsnum \<Rightarrow> jsnum \<Rightarrow> 'a controller \<Rightarrow> 'a controller" where
  "on_percent i setFn from to percent s =
     (let s1 = (if js_eq percent (Fin 1) then s\<lparr>animatingTo := None, cancel := None\<rparr> else s);
          v = js_add from (js_mul (js_sub to from) percent)
      in s1\<lparr>target := setFn v (target s1), calls := calls s1 @ [(i, v)]\<rparr>)"

text \<open>
  An event of job \<open>i\<close>.  Its callback changes the fields of the controller
  and the target, not the closures.  An index that is no job does nothing.
\<close>

definition deliver :: "nat \<Rightarrow> host_event \<Rightarrow> 'a controller \<Rightarrow> 'a controller" where
  "deliver i ev s =
     (if i < length (jobs s)
      then (let j = jobs s ! i
            in case fire (on_percent i (setFunction j) (w_from j) (w_to j)) ev (closure j) s of
                 (a', s') \<Rightarrow> s'\<lparr>jobs := (jobs s')[i := j\<lparr>closure := a'\<rparr>]\<rparr>)
      else s)"

text \<open>
  The method \<open>animate\<close>, called when the clock reads \<open>now\<close>: the function in
  \<open>cancel\<close> is called if there is one, then \<open>animatingTo\<close> is set, the static
  \<open>animate\<close> is started with a new callback, and what it returns is kept in
  \<open>cancel\<close>.
\<close>

definition animate ::
  "(jsnum \<Rightarrow> 'a \<Rightarrow> 'a) \<Rightarrow> jsnum \<Rightarrow> jsnum \<Rightarrow> jsnum \<Rightarrow> int \<Rightarrow> 'a controller \<Rightarrow> 'a controller" where
  "animate setFn from to d now s =
     (let s1 = (case cancel s of None \<Rightarrow> s | Some i \<Rightarrow> deliver i CancelCall s);
          s2 = s1\<lparr>animatingTo := Some to\<rparr>;
          j = \<lparr> closure = animate_static (easeFunction s2) d now,
                w_from = from, w_to = to, setFunction = setFn \<rparr>
      in s2\<lparr>jobs := jobs s2 @ [j], cancel := Some (length (jobs s2))\<rparr>)"

text \<open>
  What can happen to a controller: a call of \<open>animate\<close>, or an event of one of
  its jobs.  A run is a sequence of these.
\<close>

datatype 'a event =
  Animate "jsnum \<Rightarrow> 'a \<Rightarrow> 'a" jsnum jsnum jsnum int
| Host nat host_event

fun step :: "'a event \<Rightarrow> 'a controller \<Rightarrow> 'a controller" where
  "step (Animate setFn from to d now) s = animate setFn from to d now s"
| "step (Host i ev) s = deliver i ev s"

fun run :: "'a event list \<Rightarrow> 'a controller \<Rightarrow> 'a controller" where
  "run [] s = s"
| "run (e # es) s = run es (step e s)"

text \<open>A set function that assigns the value to the target, as \<open>(value) => (x = value)\<close>.\<close>

definition assign :: "jsnum \<Rightarrow> jsnum \<Rightarrow> jsnum" where
  "assign v old = v"

text \<open>The values job \<open>i\<close> has passed to its set function, in order.\<close>

definition calls_of :: "nat \<Rightarrow> 'a controller \<Rightarrow> jsnum list" where
  "calls_of i s = map snd (filter (\<lambda>c. fst c = i) (calls s))"

text \<open>The value the callback computes at fraction 1.\<close>

definition final_value :: "jsnum \<Rightarrow> jsnum \<Rightarrow> jsnum" where
  "final_value from to = js_add from (js_mul (js_sub to from) (Fin 1))"

text \<open>A job that has not made its last call yet.\<close>

definition in_flight :: "'a controller \<Rightarrow> nat \<Rightarrow> bool" where
  "in_flight s i \<longleftrightarrow> i < length (jobs s) \<and> \<not> flushed (closure (jobs s ! i))"

text \<open>
  The coupling of the two fields of the controller: both are \<open>null\<close>, or
  \<open>cancel\<close> refers to a job in flight and \<open>animatingTo\<close> is the target of that job.
\<close>

definition coupled :: "'a controller \<Rightarrow> bool" where
  "coupled s \<longleftrightarrow>
     (case cancel s of
        None \<Rightarrow> animatingTo s = None
      | Some i \<Rightarrow> in_flight s i \<and> animatingTo s = Some (w_to (jobs s ! i)))"

text \<open>
  What holds of a job at every moment: once it is flushed, its last call
  passed the value computed at fraction 1; until then its timeout is pending.
\<close>

definition settled_ok :: "'a controller \<Rightarrow> nat \<Rightarrow> bool" where
  "settled_ok s i \<longleftrightarrow>
     i < length (jobs s) \<and>
     (if flushed (closure (jobs s ! i))
      then calls_of i s \<noteq> [] \<and>
           last (calls_of i s) = final_value (w_from (jobs s ! i)) (w_to (jobs s ! i))
      else timeout_pending (closure (jobs s ! i)))"


section \<open>The slider\<close>

text \<open>
  Slides are element handles, in the order of \<open>querySelectorAll\<close>; \<open>dom\<close> gives
  the layout properties of each.  The target of the controller is the
  \<open>scrollLeft\<close> of the container, and \<open>stored\<close> is what the browser keeps of a
  value assigned to it.
\<close>

record slider =
  slides :: "nat list"
  dom :: "nat \<Rightarrow> element"
  stored :: "jsnum \<Rightarrow> jsnum"
  scrollAnimeController :: "jsnum controller"

text \<open>The field \<open>transitionDuration = 1000\<close>, which nothing assigns to.\<close>

definition transitionDuration :: jsnum where
  "transitionDuration = Fin 1000"

definition new_slider ::
  "(real \<Rightarrow> bool) \<Rightarrow> nat list \<Rightarrow> (nat \<Rightarrow> element) \<Rightarrow> (jsnum \<Rightarrow> jsnum) \<Rightarrow> jsnum \<Rightarrow> slider" where
  "new_slider up sl d st scroll =
     \<lparr> slides = sl, dom = d, stored = st,
       scrollAnimeController = new_controller (easeInOutCubic up) scroll \<rparr>"

definition scrollLeft :: "slider \<Rightarrow> jsnum" where
  "scrollLeft s = target (scrollAnimeController s)"

definition offset_left :: "slider \<Rightarrow> nat \<Rightarrow> jsval" where
  "offset_left s slide = r_left (getOffset (dom s slide))"

text \<open>
  The getter \<open>currentElement\<close>.  The scroll position it compares with is
  \<open>animatingTo\<close> when \<open>isAnimating\<close>, that is when \<open>animatingTo\<close> is not \<open>null\<close>, and
  the \<open>scrollLeft\<close> of the container otherwise; \<open>>=\<close> compares the numeric
  values of its operands.
\<close>

definition currentScroll :: "slider \<Rightarrow> jsnum" where
  "currentScroll s =
     (case animatingTo (scrollAnimeController s) of Some t \<Rightarrow> t | None \<Rightarrow> scrollLeft s)"

fun first_at_or_after :: "slider \<Rightarrow> jsnum \<Rightarrow> nat list \<Rightarrow> js_error + nat" where
  "first_at_or_after s cur [] = Inl BadState"
| "first_at_or_after s cur (slide # rest) =
     (if js_ge (to_number (offset_left s slide)) cur then Inr slide
      else first_at_or_after s cur rest)"

definition currentElement :: "slider \<Rightarrow> js_error + nat" where
  "currentElement s = first_at_or_after s (currentScroll s) (slides s)"

text \<open>\<open>Array.prototype.indexOf\<close> and reading an array at an index.\<close>

fun indexOf :: "'a list \<Rightarrow> 'a \<Rightarrow> int" where
  "indexOf [] x = - 1"
| "indexOf (y # ys) x = (if y = x then 0 else (let r = indexOf ys x in if r < 0 then - 1 else r + 1))"

definition at_index :: "'a list \<Rightarrow> int \<Rightarrow> 'a option" where
  "at_index xs i = (if 0 \<le> i \<and> i < int (length xs) then Some (xs ! nat i) else None)"

definition nextElement :: "slider \<Rightarrow> js_error + nat option" where
  "nextElement s =
     (case currentElement s of
        Inl err \<Rightarrow> Inl err
      | Inr cur \<Rightarrow> Inr (at_index (slides s) (indexOf (slides s) cur + 1)))"

definition previousElement :: "slider \<Rightarrow> js_error + nat option" where
  "previousElement s =
     (case currentElement s of
        Inl err \<Rightarrow> Inl err
      | Inr cur \<Rightarrow> Inr (at_index (slides s) (indexOf (slides s) cur - 1)))"

text \<open>
  \<open>scrollTo\<close> and the two click handlers, called when the clock reads \<open>now\<close>.
  The value \<open>to\<close> comes from \<open>getOffset\<close>, which never yields \<open>null\<close> or
  \<open>undefined\<close>; the controller computes with its numeric value.
\<close>

definition scrollTo :: "jsval \<Rightarrow> int \<Rightarrow> slider \<Rightarrow> slider" where
  "scrollTo to now s =
     s\<lparr>scrollAnimeController :=
         animate (\<lambda>v _. stored s v) (scrollLeft s) (to_number to) transitionDuration now
           (scrollAnimeController s)\<rparr>"

definition onNextClick :: "int \<Rightarrow> slider \<Rightarrow> js_error + slider" where
  "onNextClick now s =
     (case nextElement s of
        Inl err \<Rightarrow> Inl err
      | Inr None \<Rightarrow> Inr s
      | Inr (Some slide) \<Rightarrow> Inr (scrollTo (offset_left s slide) now s))"

definition onPreviusClick :: "int \<Rightarrow> slider \<Rightarrow> js_error + slider" where
  "onPreviusClick now s =
     (case previousElement s of
        Inl err \<Rightarrow> Inl err
      | Inr None \<Rightarrow> Inr s
      | Inr (Some slide) \<Rightarrow> Inr (scrollTo (offset_left s slide) now s))"

text \<open>
  A slider with three slides, the elements 10, 11 and 12, laid out at the left
  offsets 0, 300 and 600, in a browser that stores an assigned \<open>scrollLeft\<close> as
  it is and runs the engine \<open>up\<close>; the container is scrolled to \<open>scroll\<close>.
\<close>

definition three_slides :: "(real \<Rightarrow> bool) \<Rightarrow> jsnum \<Rightarrow> slider" where
  "three_slides up scroll =
     new_slider up [10, 11, 12]
       (\<lambda>e name. if name = ''offsetLeft''
                  then JNum (Fin (if e = 10 then 0 else if e = 11 then 300 else 600))
                  else JUndefined)
       (\<lambda>v. v) scroll"


section \<open>Evaluation on concrete inputs\<close>

text \<open>The equations that compute the rounding and a run of the controller.\<close>

lemmas dbl_eval = fl_def rnd_def expo_def expo_up.simps expo_down.simps round_even_def Let_def


lemmas run_eval = animate_def new_controller_def animate_static_def deliver_def endAnimation_def
  tick_def on_percent_def calls_of_def assign_def clock_def js_ge_def js_sub_def


section \<open>One animation: the closing call\<close>

lemma endAnimation_flushed [simp]: "flushed (fst (endAnimation cb a c))"
  by (simp add: endAnimation_def Let_def)

lemma endAnimation_snd:
  "snd (endAnimation cb a c) = (if flushed a then c else cb (Fin 1) c)"
  by (simp add: endAnimation_def Let_def)

lemma endAnimation_timeout [simp]: "\<not> timeout_pending (fst (endAnimation cb a c))"
  by (simp add: endAnimation_def Let_def)

lemma endAnimation_marker:
  "tickMarker (fst (endAnimation cb a c)) = Some h \<Longrightarrow> h \<notin> set (frames (fst (endAnimation cb a c)))"
  by (auto simp add: endAnimation_def Let_def split: option.splits)

lemma tick_flushed_iff:
  "flushed (fst (tick cb now a c)) \<longleftrightarrow> flushed a \<or> js_ge (clock now) (t_end a)"
  by (simp add: tick_def)

lemma tick_snd:
  "snd (tick cb now a c) =
     (if flushed a then c
      else if js_ge (clock now) (t_end a) then cb (Fin 1) c
      else cb (a_ease a (js_div (js_sub (clock now) (t_begin a)) (duration a))) c)"
  by (simp add: tick_def endAnimation_snd)

lemma fire_flushed_stays: "flushed a \<Longrightarrow> flushed (fst (fire cb ev a c)) \<and> snd (fire cb ev a c) = c"
  by (cases ev) (simp_all add: endAnimation_snd tick_flushed_iff tick_snd)

lemma fire_flush_call:
  "\<not> flushed a \<Longrightarrow> flushed (fst (fire cb ev a c)) \<Longrightarrow> snd (fire cb ev a c) = cb (Fin 1) c"
  by (cases ev) (auto simp add: endAnimation_snd tick_flushed_iff tick_snd split: if_splits)

lemma fire_running_call:
  "\<not> flushed (fst (fire cb ev a c)) \<Longrightarrow>
     snd (fire cb ev a c) = c \<or> (\<exists>p. snd (fire cb ev a c) = cb p c)"
  by (cases ev) (auto simp add: endAnimation_snd tick_flushed_iff tick_snd split: if_splits)

lemma fire_timeout_inv:
  "(\<not> flushed a \<longrightarrow> timeout_pending a) \<Longrightarrow>
   \<not> flushed (fst (fire cb ev a c)) \<longrightarrow> timeout_pending (fst (fire cb ev a c))"
  by (cases ev) (auto simp add: tick_def split: if_splits)

lemma fire_all_append:
  "fire_all cb (evs @ later) a c =
     (case fire_all cb evs a c of (a', c') \<Rightarrow> fire_all cb later a' c')"
  by (induction evs arbitrary: a c) (auto split: prod.splits)

lemma fire_all_flushed_stays:
  "flushed a \<Longrightarrow> flushed (fst (fire_all cb evs a c)) \<and> snd (fire_all cb evs a c) = c"
proof (induction evs arbitrary: a c)
  case Nil
  then show ?case by simp
next
  case (Cons ev evs)
  obtain a' c' where f: "fire cb ev a c = (a', c')" by (cases "fire cb ev a c")
  with fire_flushed_stays [OF Cons.prems, of cb ev c] have "flushed a'" "c' = c" by simp_all
  with Cons.IH [of a' c'] f show ?case by simp
qed

lemma fire_ease [simp]: "a_ease (fst (fire cb ev a c)) = a_ease a"
  by (cases ev) (simp_all add: endAnimation_def tick_def Let_def)

lemma fire_record_cases:
  "\<not> flushed (fst (fire record_call ev a tr)) \<Longrightarrow>
     snd (fire record_call ev a tr) = tr \<or> (\<exists>x. snd (fire record_call ev a tr) = tr @ [a_ease a x])"
  by (cases ev) (auto simp add: endAnimation_snd tick_flushed_iff tick_snd record_call_def split: if_splits)

lemma fire_all_final_call:
  "\<not> flushed a \<Longrightarrow> flushed (fst (fire_all record_call evs a tr)) \<Longrightarrow>
     \<exists>pre. snd (fire_all record_call evs a tr) = tr @ pre @ [Fin 1] \<and> set pre \<subseteq> range (a_ease a)"
proof (induction evs arbitrary: a tr)
  case Nil
  then show ?case by simp
next
  case (Cons ev evs)
  obtain a' tr' where f: "fire record_call ev a tr = (a', tr')" by (cases "fire record_call ev a tr")
  show ?case
  proof (cases "flushed a'")
    case True
    with fire_flush_call [OF Cons.prems(1), of record_call ev tr] f
    have "tr' = tr @ [Fin 1]" by (simp add: record_call_def)
    moreover from fire_all_flushed_stays [OF True, of record_call evs tr']
    have "snd (fire_all record_call evs a' tr') = tr'" by simp
    ultimately have "snd (fire_all record_call (ev # evs) a tr) = tr @ [Fin 1]"
      using f by simp
    then show ?thesis by (intro exI [of _ "[]"]) simp
  next
    case False
    have ea: "a_ease a' = a_ease a"
      using fire_ease [of record_call ev a tr] f by simp
    from Cons.IH [OF False, of tr'] Cons.prems f
    obtain pre where pre: "snd (fire_all record_call evs a' tr') = tr' @ pre @ [Fin 1]"
      and sub: "set pre \<subseteq> range (a_ease a)" using ea by auto
    from fire_record_cases [of ev a tr] False f
    consider "tr' = tr" | x where "tr' = tr @ [a_ease a x]" by auto
    then show ?thesis
    proof cases
      case 1
      with pre sub f show ?thesis by auto
    next
      case 2
      with pre f have "snd (fire_all record_call (ev # evs) a tr) = tr @ (a_ease a x # pre) @ [Fin 1]"
        by simp
      moreover have "set (a_ease a x # pre) \<subseteq> range (a_ease a)" using sub by auto
      ultimately show ?thesis by (intro exI [of _ "a_ease a x # pre"]) simp
    qed
  qed
qed

text \<open>
  Claim C9, as amended.  The function returned by the static \<open>animate\<close> is
  idempotent.  Over any sequence of timeout firings, frame callbacks and calls
  of that function: once the closing call (fraction 1, made by \<open>endAnimation\<close>
  when it sets \<open>flushed\<close>) has happened it is the last entry of the record of
  calls, everything before it is an eased value passed by a tick, and no later
  event adds a call of any kind.  A call of the returned function always
  leaves the animation flushed, and a second call changes nothing.  The eased
  value of a tick can itself be 1, so the fraction 1 can be passed more than
  once; the closing call is made once.
\<close>

theorem final_call_once:
  "(flushed (fst (fire_all record_call evs (animate_static ease d now) [])) \<longrightarrow>
      (\<exists>pre. snd (fire_all record_call evs (animate_static ease d now) []) = pre @ [Fin 1]
             \<and> set pre \<subseteq> range ease)
    \<and> (\<forall>later. snd (fire_all record_call (evs @ later) (animate_static ease d now) [])
               = snd (fire_all record_call evs (animate_static ease d now) [])))
   \<and> flushed (fst (fire_all record_call (evs @ [CancelCall]) (animate_static ease d now) []))
   \<and> fire_all record_call (evs @ [CancelCall, CancelCall]) (animate_static ease d now) []
       = fire_all record_call (evs @ [CancelCall]) (animate_static ease d now) []"
proof -
  let ?a0 = "animate_static ease d now"
  obtain a tr where r: "fire_all record_call evs ?a0 [] = (a, tr)"
    by (cases "fire_all record_call evs ?a0 []")
  have nf: "\<not> flushed ?a0" and ea: "a_ease ?a0 = ease" by (simp_all add: animate_static_def)
  have 1: "flushed a \<Longrightarrow> \<exists>pre. tr = pre @ [Fin 1] \<and> set pre \<subseteq> range ease"
    using fire_all_final_call [OF nf, of evs "[]"] r ea by simp
  have 2: "flushed a \<Longrightarrow> snd (fire_all record_call (evs @ later) ?a0 []) = tr" for later
    using fire_all_flushed_stays [of a record_call later tr] r by (simp add: fire_all_append)
  have 3: "flushed (fst (fire_all record_call (evs @ [CancelCall]) ?a0 []))"
    using r by (simp add: fire_all_append split: prod.splits) (metis endAnimation_flushed fst_conv)
  have 4: "fire_all record_call (evs @ [CancelCall, CancelCall]) ?a0 []
             = fire_all record_call (evs @ [CancelCall]) ?a0 []"
    using r by (auto simp add: fire_all_append endAnimation_def Let_def split: prod.splits option.splits)
  from 1 2 3 4 r show ?thesis by simp
qed

lemma half_eval: "js_div (js_sub (clock 500) (clock 0)) (Fin 1000) = Fin (1/2)"
  by (simp add: clock_def js_sub_def fl_def rnd_def expo_def expo_up.simps expo_down.simps round_even_def Let_def)

lemma ease_half: "easeInOutCubic up (Fin (1/2)) = Fin (1/2)"
  by (simp add: easeInOutCubic_def js_sub_def pow3_def rnd_up_def rnd_down_def fl_def rnd_def
        expo_def expo_up.simps expo_down.simps round_even_def Let_def)

text \<open>
  The tick one millisecond before the end of an animation of 1000000 ms: the
  elapsed fraction, the base of the cube, the two neighbours of the cube, and
  the eased value, which is 1 whichever neighbour the engine returns.
\<close>

lemma near_end_arg:
  "js_div (js_sub (clock 999999) (clock 0)) (Fin 1000000) = Fin (9007190247541737 / 9007199254740992)"
  by (simp add: clock_def js_sub_def dbl_eval)

lemma near_end_base:
  "js_add (js_mul (Fin (- 2)) (Fin (9007190247541737 / 9007199254740992))) (Fin 2)
     = Fin (9007199255 / 4503599627370496)"
  by (simp add: dbl_eval)

lemma near_end_cube:
  "pow3 up (9007199255 / 4503599627370496) = 5192296858982751 / 649037107316853453566312041152512
   \<or> pow3 up (9007199255 / 4503599627370496) = 162259276843211 / 20282409603651670423947251286016"
  by (simp add: pow3_def rnd_down_def rnd_up_def expo_def expo_up.simps expo_down.simps)

lemma ease_near_end: "easeInOutCubic up (Fin (9007190247541737 / 9007199254740992)) = Fin 1"
proof -
  have "easeInOutCubic up (Fin (9007190247541737 / 9007199254740992))
          = js_sub (Fin 1) (js_div (js_pow3 up (Fin (9007199255 / 4503599627370496))) (Fin 2))"
    unfolding easeInOutCubic_def near_end_base by simp
  also have "\<dots> = Fin 1"
    using near_end_cube [of up]
  proof (elim disjE)
    assume a: "pow3 up (9007199255 / 4503599627370496)
                 = 5192296858982751 / 649037107316853453566312041152512"
    show ?thesis by (simp add: a js_sub_def dbl_eval)
  next
    assume a: "pow3 up (9007199255 / 4503599627370496)
                 = 162259276843211 / 20282409603651670423947251286016"
    show ?thesis by (simp add: a js_sub_def dbl_eval)
  qed
  finally show ?thesis .
qed

theorem fraction_one_twice:
  "\<forall>up. snd (fire_all record_call [FrameFires 0 999999, TimeoutFires]
          (animate_static (easeInOutCubic up) (Fin 1000000) 0) []) = [Fin 1, Fin 1]"
  by (intro allI)
     (simp add: animate_static_def tick_def endAnimation_def record_call_def clock_def js_ge_def
        js_sub_def ease_near_end dbl_eval)

theorem final_call_once_witness:
  "\<forall>up.
     flushed (fst (fire_all record_call [FrameFires 0 500, TimeoutFires, CancelCall]
                   (animate_static (easeInOutCubic up) (Fin 1000) 0) []))
   \<and> snd (fire_all record_call [FrameFires 0 500, TimeoutFires, CancelCall]
                   (animate_static (easeInOutCubic up) (Fin 1000) 0) []) = [Fin (1 / 2), Fin 1]
   \<and> snd (fire_all record_call ([FrameFires 0 500, TimeoutFires, CancelCall] @ [FrameFires 1 2000])
                   (animate_static (easeInOutCubic up) (Fin 1000) 0) []) = [Fin (1 / 2), Fin 1]"
  (is "\<forall>up. ?P up")
proof
  fix up
  have ev: "fire_all record_call [FrameFires 0 500, TimeoutFires, CancelCall]
              (animate_static (easeInOutCubic up) (Fin 1000) 0) []
            = (\<lparr> t_begin = clock 0, t_end = js_add (clock 0) (Fin 1000), duration = Fin 1000,
                 a_ease = easeInOutCubic up, flushed = True, timeout_pending = False,
                 tickMarker = Some 1, frames = [], next_frame = 2 \<rparr>, [Fin (1 / 2), Fin 1])"
    apply (simp add: animate_static_def tick_def endAnimation_def Let_def record_call_def half_eval ease_half)
    apply (simp add: clock_def js_ge_def fl_def rnd_def expo_def expo_up.simps expo_down.simps round_even_def Let_def)
    done
  from final_call_once [of "[FrameFires 0 500, TimeoutFires, CancelCall]" "easeInOutCubic up" "Fin 1000" 0]
  show "?P up" unfolding ev by simp
qed


section \<open>Events of a job, seen from the controller\<close>

lemma on_percent_simps [simp]:
  "jobs (on_percent i f a b p s) = jobs s"
  "easeFunction (on_percent i f a b p s) = easeFunction s"
  "calls (on_percent i f a b p s) = calls s @ [(i, js_add a (js_mul (js_sub b a) p))]"
  "target (on_percent i f a b p s) = f (js_add a (js_mul (js_sub b a) p)) (target s)"
  "cancel (on_percent i f a b p s) = (if js_eq p (Fin 1) then None else cancel s)"
  "animatingTo (on_percent i f a b p s) = (if js_eq p (Fin 1) then None else animatingTo s)"
  by (simp_all add: on_percent_def Let_def)

lemma fire_snd_cases:
  "snd (fire cb ev a c) = c \<or> (\<exists>p. snd (fire cb ev a c) = cb p c)"
  by (cases ev) (auto simp add: endAnimation_snd tick_snd)

lemma js_eq_one [simp]: "js_eq (Fin 1) (Fin 1)"
  by simp

text \<open>What an event of job i does to the controller, by the state of the job before and after.\<close>

lemma deliver_alt:
  "deliver i ev s =
     (if i < length (jobs s)
      then (snd (fire (on_percent i (setFunction (jobs s ! i)) (w_from (jobs s ! i)) (w_to (jobs s ! i)))
                   ev (closure (jobs s ! i)) s))
             \<lparr>jobs := (jobs (snd (fire (on_percent i (setFunction (jobs s ! i)) (w_from (jobs s ! i))
                                          (w_to (jobs s ! i))) ev (closure (jobs s ! i)) s)))
                      [i := (jobs s ! i)\<lparr>closure :=
                          fst (fire (on_percent i (setFunction (jobs s ! i)) (w_from (jobs s ! i))
                                 (w_to (jobs s ! i))) ev (closure (jobs s ! i)) s)\<rparr>]\<rparr>
      else s)"
  by (simp add: deliver_def Let_def case_prod_beta)

lemma deliver_jobs:
  "length (jobs (deliver i ev s)) = length (jobs s)"
  "k \<noteq> i \<Longrightarrow> jobs (deliver i ev s) ! k = jobs s ! k"
  "w_from (jobs (deliver i ev s) ! k) = w_from (jobs s ! k)"
  "w_to (jobs (deliver i ev s) ! k) = w_to (jobs s ! k)"
  "setFunction (jobs (deliver i ev s) ! k) = setFunction (jobs s ! k)"
  "easeFunction (deliver i ev s) = easeFunction s"
proof -
  let ?j = "jobs s ! i"
  let ?cb = "on_percent i (setFunction ?j) (w_from ?j) (w_to ?j)"
  have j: "jobs (snd (fire ?cb ev (closure ?j) s)) = jobs s"
    and e: "easeFunction (snd (fire ?cb ev (closure ?j) s)) = easeFunction s"
    using fire_snd_cases [of ?cb ev "closure ?j" s] by auto
  show "length (jobs (deliver i ev s)) = length (jobs s)"
    using j by (simp add: deliver_alt)
  show "k \<noteq> i \<Longrightarrow> jobs (deliver i ev s) ! k = jobs s ! k"
    using j by (simp add: deliver_alt)
  show "w_from (jobs (deliver i ev s) ! k) = w_from (jobs s ! k)"
    using j by (cases "k = i") (auto simp add: deliver_alt)
  show "w_to (jobs (deliver i ev s) ! k) = w_to (jobs s ! k)"
    using j by (cases "k = i") (auto simp add: deliver_alt)
  show "setFunction (jobs (deliver i ev s) ! k) = setFunction (jobs s ! k)"
    using j by (cases "k = i") (auto simp add: deliver_alt)
  show "easeFunction (deliver i ev s) = easeFunction s"
    using e by (simp add: deliver_alt)
qed

lemma deliver_closure:
  "i < length (jobs s) \<Longrightarrow>
   closure (jobs (deliver i ev s) ! i)
     = fst (fire (on_percent i (setFunction (jobs s ! i)) (w_from (jobs s ! i)) (w_to (jobs s ! i)))
              ev (closure (jobs s ! i)) s)"
proof -
  assume i: "i < length (jobs s)"
  let ?j = "jobs s ! i"
  let ?cb = "on_percent i (setFunction ?j) (w_from ?j) (w_to ?j)"
  have j: "jobs (snd (fire ?cb ev (closure ?j) s)) = jobs s"
    using fire_snd_cases [of ?cb ev "closure ?j" s] by auto
  show ?thesis using i j by (simp add: deliver_alt)
qed

lemma deliver_fields:
  "cancel (deliver i ev s)
     = (if i < length (jobs s)
        then cancel (snd (fire (on_percent i (setFunction (jobs s ! i)) (w_from (jobs s ! i)) (w_to (jobs s ! i)))
              ev (closure (jobs s ! i)) s)) else cancel s)"
  "animatingTo (deliver i ev s)
     = (if i < length (jobs s)
        then animatingTo (snd (fire (on_percent i (setFunction (jobs s ! i)) (w_from (jobs s ! i)) (w_to (jobs s ! i)))
              ev (closure (jobs s ! i)) s)) else animatingTo s)"
  "calls (deliver i ev s)
     = (if i < length (jobs s)
        then calls (snd (fire (on_percent i (setFunction (jobs s ! i)) (w_from (jobs s ! i)) (w_to (jobs s ! i)))
              ev (closure (jobs s ! i)) s)) else calls s)"
  "target (deliver i ev s)
     = (if i < length (jobs s)
        then target (snd (fire (on_percent i (setFunction (jobs s ! i)) (w_from (jobs s ! i)) (w_to (jobs s ! i)))
              ev (closure (jobs s ! i)) s)) else target s)"
  by (simp_all add: deliver_alt)

text \<open>A settled job stays settled and silent.\<close>

lemma deliver_flushed:
  assumes "i < length (jobs s)" "flushed (closure (jobs s ! i))"
  shows "flushed (closure (jobs (deliver i ev s) ! i))"
    and "calls (deliver i ev s) = calls s" and "target (deliver i ev s) = target s"
    and "cancel (deliver i ev s) = cancel s" and "animatingTo (deliver i ev s) = animatingTo s"
  using assms by (simp_all add: deliver_closure deliver_fields fire_flushed_stays)

text \<open>The event that settles a job makes the closing call.\<close>

lemma deliver_settles:
  assumes "i < length (jobs s)" "\<not> flushed (closure (jobs s ! i))"
    "flushed (closure (jobs (deliver i ev s) ! i))"
  shows "calls (deliver i ev s) = calls s @ [(i, final_value (w_from (jobs s ! i)) (w_to (jobs s ! i)))]"
    and "target (deliver i ev s)
           = setFunction (jobs s ! i) (final_value (w_from (jobs s ! i)) (w_to (jobs s ! i))) (target s)"
    and "cancel (deliver i ev s) = None" and "animatingTo (deliver i ev s) = None"
proof -
  let ?j = "jobs s ! i"
  let ?cb = "on_percent i (setFunction ?j) (w_from ?j) (w_to ?j)"
  from assms have "flushed (fst (fire ?cb ev (closure ?j) s))"
    by (simp add: deliver_closure)
  from fire_flush_call [OF assms(2) this]
  have s': "snd (fire ?cb ev (closure ?j) s) = ?cb (Fin 1) s" .
  show "calls (deliver i ev s) = calls s @ [(i, final_value (w_from ?j) (w_to ?j))]"
    and "target (deliver i ev s) = setFunction ?j (final_value (w_from ?j) (w_to ?j)) (target s)"
    and "cancel (deliver i ev s) = None" and "animatingTo (deliver i ev s) = None"
    using assms(1) s' by (simp_all add: deliver_fields final_value_def)
qed

text \<open>An event that leaves the job running makes at most one call, a call of that job.\<close>

lemma deliver_running:
  assumes "i < length (jobs s)" "\<not> flushed (closure (jobs (deliver i ev s) ! i))"
  shows "calls (deliver i ev s) = calls s \<or> (\<exists>v. calls (deliver i ev s) = calls s @ [(i, v)])"
    and "cancel (deliver i ev s) = cancel s \<and> animatingTo (deliver i ev s) = animatingTo s
         \<or> cancel (deliver i ev s) = None \<and> animatingTo (deliver i ev s) = None"
proof -
  let ?j = "jobs s ! i"
  let ?cb = "on_percent i (setFunction ?j) (w_from ?j) (w_to ?j)"
  from fire_snd_cases [of ?cb ev "closure ?j" s]
  consider "snd (fire ?cb ev (closure ?j) s) = s" | p where "snd (fire ?cb ev (closure ?j) s) = ?cb p s"
    by auto
  then show "calls (deliver i ev s) = calls s \<or> (\<exists>v. calls (deliver i ev s) = calls s @ [(i, v)])"
    and "cancel (deliver i ev s) = cancel s \<and> animatingTo (deliver i ev s) = animatingTo s
         \<or> cancel (deliver i ev s) = None \<and> animatingTo (deliver i ev s) = None"
    using assms(1) by (cases; simp add: deliver_fields)+
qed

lemma deliver_out_of_range: "\<not> i < length (jobs s) \<Longrightarrow> deliver i ev s = s"
  by (simp add: deliver_def)


section \<open>The coupling of \<open>cancel\<close> and \<open>animatingTo\<close>\<close>

lemma deliver_calls:
  "\<exists>xs. calls (deliver k ev s) = calls s @ xs \<and> (\<forall>c\<in>set xs. fst c = k)"
proof (cases "k < length (jobs s)")
  case False
  then show ?thesis by (simp add: deliver_out_of_range)
next
  case k: True
  show ?thesis
  proof (cases "flushed (closure (jobs (deliver k ev s) ! k))")
    case False
    from deliver_running(1) [OF k False] show ?thesis by auto
  next
    case after: True
    show ?thesis
    proof (cases "flushed (closure (jobs s ! k))")
      case True
      from deliver_flushed(2) [OF k True] show ?thesis by simp
    next
      case False
      from deliver_settles(1) [OF k False after] show ?thesis by simp
    qed
  qed
qed

lemma deliver_calls_of_other: "i \<noteq> k \<Longrightarrow> calls_of i (deliver k ev s) = calls_of i s"
  using deliver_calls [of k ev s] by (auto simp add: calls_of_def)

lemma deliver_in_flight_other: "i \<noteq> k \<Longrightarrow> in_flight (deliver k ev s) i = in_flight s i"
  by (simp add: in_flight_def deliver_jobs)

lemma coupled_deliver: "coupled s \<Longrightarrow> coupled (deliver i ev s)"
proof (cases "i < length (jobs s)")
  case False
  assume "coupled s"
  with False show ?thesis by (simp add: deliver_out_of_range)
next
  case i: True
  assume c: "coupled s"
  show ?thesis
  proof (cases "flushed (closure (jobs s ! i))")
    case True
    note f = deliver_flushed [OF i True, of ev]
    show ?thesis
    proof (cases "cancel s")
      case None
      with c f show ?thesis by (simp add: coupled_def)
    next
      case (Some k)
      with c True have "k \<noteq> i" by (auto simp add: coupled_def in_flight_def)
      with c Some f show ?thesis
        by (simp add: coupled_def deliver_in_flight_other deliver_jobs)
    qed
  next
    case before: False
    show ?thesis
    proof (cases "flushed (closure (jobs (deliver i ev s) ! i))")
      case True
      from deliver_settles(3,4) [OF i before True] show ?thesis by (simp add: coupled_def)
    next
      case False
      from deliver_running(2) [OF i False]
      consider "cancel (deliver i ev s) = cancel s" "animatingTo (deliver i ev s) = animatingTo s"
        | "cancel (deliver i ev s) = None" "animatingTo (deliver i ev s) = None" by auto
      then show ?thesis
      proof cases
        case 1
        show ?thesis
        proof (cases "cancel s")
          case None
          with c 1 show ?thesis by (simp add: coupled_def)
        next
          case (Some k)
          with c have k: "in_flight s k" "animatingTo s = Some (w_to (jobs s ! k))"
            by (simp_all add: coupled_def)
          have "in_flight (deliver i ev s) k"
          proof (cases "k = i")
            case True
            with False i show ?thesis by (simp add: in_flight_def deliver_jobs)
          next
            case False
            with k show ?thesis by (simp add: deliver_in_flight_other)
          qed
          with 1 Some k show ?thesis by (simp add: coupled_def deliver_jobs)
        qed
      next
        case 2
        then show ?thesis by (simp add: coupled_def)
      qed
    qed
  qed
qed

lemma animate_fields:
  "cancel (animate f a b d now s) = Some (length (jobs s))"
  "animatingTo (animate f a b d now s) = Some b"
  "length (jobs (animate f a b d now s)) = Suc (length (jobs s))"
  "jobs (animate f a b d now s) ! length (jobs s)
     = \<lparr> closure = animate_static (easeFunction s) d now, w_from = a, w_to = b, setFunction = f \<rparr>"
  "k < length (jobs s) \<Longrightarrow>
     jobs (animate f a b d now s) ! k
       = jobs (case cancel s of None \<Rightarrow> s | Some i \<Rightarrow> deliver i CancelCall s) ! k"
  "calls (animate f a b d now s) = calls (case cancel s of None \<Rightarrow> s | Some i \<Rightarrow> deliver i CancelCall s)"
  "target (animate f a b d now s) = target (case cancel s of None \<Rightarrow> s | Some i \<Rightarrow> deliver i CancelCall s)"
  "easeFunction (animate f a b d now s) = easeFunction s"
  by (auto simp add: animate_def Let_def deliver_jobs nth_append split: option.splits)

lemma coupled_animate: "coupled (animate f a b d now s)"
  by (simp add: coupled_def animate_fields in_flight_def animate_static_def)

lemma coupled_step: "coupled s \<Longrightarrow> coupled (step e s)"
  by (cases e) (simp_all add: coupled_animate coupled_deliver)

lemma coupled_run: "coupled s \<Longrightarrow> coupled (run evs s)"
  by (induction evs arbitrary: s) (simp_all add: coupled_step)

lemma coupled_new: "coupled (new_controller ease t)"
  by (simp add: coupled_def new_controller_def)

text \<open>
  Claim C8.  Between events, that is whenever no callback is running,
  \<open>animatingTo\<close> is \<open>null\<close> exactly when \<open>cancel\<close> is \<open>null\<close>; \<open>isAnimating\<close> is true
  exactly when \<open>cancel\<close> holds the finishing function of a job in flight, and
  \<open>animatingTo\<close> is then the target of that job.  The two fields are both
  \<open>null\<close> in a new controller, \<open>animate\<close> sets both and the callback clears
  both at fraction 1.
\<close>

theorem fields_coupled:
  "(animatingTo (run evs (new_controller ease t)) = None
      \<longleftrightarrow> cancel (run evs (new_controller ease t)) = None)
   \<and> (isAnimating (run evs (new_controller ease t))
      \<longleftrightarrow> (\<exists>i. cancel (run evs (new_controller ease t)) = Some i
               \<and> in_flight (run evs (new_controller ease t)) i))
   \<and> (\<forall>i. cancel (run evs (new_controller ease t)) = Some i \<longrightarrow>
           animatingTo (run evs (new_controller ease t))
             = Some (w_to (jobs (run evs (new_controller ease t)) ! i)))
   \<and> cancel (new_controller ease t) = None \<and> animatingTo (new_controller ease t) = None
   \<and> cancel (animate f a b d now s) \<noteq> None \<and> animatingTo (animate f a b d now s) = Some b
   \<and> cancel (on_percent k g a b (Fin 1) s) = None \<and> animatingTo (on_percent k g a b (Fin 1) s) = None"
proof -
  have "coupled (run evs (new_controller ease t))"
    by (rule coupled_run [OF coupled_new])
  then show ?thesis
    by (cases "cancel (run evs (new_controller ease t))")
       (simp_all add: coupled_def isAnimating_def animate_fields new_controller_def)
qed

theorem fields_coupled_witness:
  "\<forall>up.
     cancel (run [Animate assign (Fin 0) (Fin 100) (Fin 1000) 0]
               (new_controller (easeInOutCubic up) (Fin 0))) = Some 0
   \<and> animatingTo (run [Animate assign (Fin 0) (Fin 100) (Fin 1000) 0]
                    (new_controller (easeInOutCubic up) (Fin 0))) = Some (Fin 100)
   \<and> isAnimating (run [Animate assign (Fin 0) (Fin 100) (Fin 1000) 0]
                    (new_controller (easeInOutCubic up) (Fin 0)))"
  (is "\<forall>up. ?P up")
proof
  fix up
  let ?s = "run [Animate assign (Fin 0) (Fin 100) (Fin 1000) 0] (new_controller (easeInOutCubic up) (Fin 0))"
  have c: "cancel ?s = Some 0" and w: "w_to (jobs ?s ! 0) = Fin 100"
    by (simp_all add: run_eval)
  from fields_coupled [of "[Animate assign (Fin 0) (Fin 100) (Fin 1000) 0]" "easeInOutCubic up" "Fin 0"]
  have a: "animatingTo ?s = Some (w_to (jobs ?s ! 0))"
    using c by blast
  then have "isAnimating ?s" by (simp add: isAnimating_def)
  with a c w show "?P up" by simp
qed


section \<open>The last call of a job\<close>

lemma calls_of_eq: "calls s' = calls s \<Longrightarrow> calls_of i s' = calls_of i s"
  by (simp add: calls_of_def)

lemma calls_of_snoc: "calls s' = calls s @ [(i, v)] \<Longrightarrow> calls_of i s' = calls_of i s @ [v]"
  by (simp add: calls_of_def)

lemma deliver_timeout_inv:
  assumes "i < length (jobs s)"
    "\<not> flushed (closure (jobs s ! i)) \<longrightarrow> timeout_pending (closure (jobs s ! i))"
  shows "\<not> flushed (closure (jobs (deliver i ev s) ! i))
           \<longrightarrow> timeout_pending (closure (jobs (deliver i ev s) ! i))"
  using fire_timeout_inv [OF assms(2),
      of "on_percent i (setFunction (jobs s ! i)) (w_from (jobs s ! i)) (w_to (jobs s ! i))" ev s]
    assms(1)
  by (simp add: deliver_closure)

lemma settled_ok_deliver:
  assumes ok: "settled_ok s i"
  shows "settled_ok (deliver k ev s) i"
proof -
  from ok have i: "i < length (jobs s)" by (simp add: settled_ok_def)
  have fr: "w_from (jobs (deliver k ev s) ! i) = w_from (jobs s ! i)"
    and to: "w_to (jobs (deliver k ev s) ! i) = w_to (jobs s ! i)"
    and len: "length (jobs (deliver k ev s)) = length (jobs s)"
    by (rule deliver_jobs)+
  show ?thesis
  proof (cases "k = i")
    case False
    then have j: "jobs (deliver k ev s) ! i = jobs s ! i"
      by (simp add: deliver_jobs(2))
    have c: "calls_of i (deliver k ev s) = calls_of i s"
      using False by (simp add: deliver_calls_of_other)
    show ?thesis using ok unfolding settled_ok_def j c len .
  next
    case True
    show ?thesis
    proof (cases "flushed (closure (jobs s ! i))")
      case before: True
      have "flushed (closure (jobs (deliver i ev s) ! i))"
        and "calls (deliver i ev s) = calls s"
        by (rule deliver_flushed [OF i before])+
      then have "flushed (closure (jobs (deliver i ev s) ! i))"
        and "calls_of i (deliver i ev s) = calls_of i s"
        by (simp_all add: calls_of_def)
      moreover from ok before have "calls_of i s \<noteq> []"
        "last (calls_of i s) = final_value (w_from (jobs s ! i)) (w_to (jobs s ! i))"
        by (simp_all add: settled_ok_def)
      ultimately show ?thesis
        unfolding settled_ok_def True using i fr to len by (simp add: True)
    next
      case before: False
      with ok have tp: "timeout_pending (closure (jobs s ! i))" by (simp add: settled_ok_def)
      show ?thesis
      proof (cases "flushed (closure (jobs (deliver i ev s) ! i))")
        case after: True
        from deliver_settles(1) [OF i before after]
        have "calls_of i (deliver i ev s)
                = calls_of i s @ [final_value (w_from (jobs s ! i)) (w_to (jobs s ! i))]"
          by (simp add: calls_of_def)
        with after show ?thesis
          unfolding settled_ok_def True using i fr to len by (simp add: True)
      next
        case after: False
        from deliver_timeout_inv [OF i, of ev] tp after
        have "timeout_pending (closure (jobs (deliver i ev s) ! i))" by simp
        with after show ?thesis
          unfolding settled_ok_def True using i len by (simp add: True)
      qed
    qed
  qed
qed

lemma cancelled_state_cases:
  "(case cancel s of None \<Rightarrow> s | Some i \<Rightarrow> deliver i CancelCall s) = s
   \<or> (\<exists>k. (case cancel s of None \<Rightarrow> s | Some i \<Rightarrow> deliver i CancelCall s) = deliver k CancelCall s)"
  by (cases "cancel s") auto

lemma settled_ok_animate: "settled_ok s i \<Longrightarrow> settled_ok (animate f a b d now s) i"
proof -
  assume ok: "settled_ok s i"
  let ?s1 = "case cancel s of None \<Rightarrow> s | Some k \<Rightarrow> deliver k CancelCall s"
  from ok have i: "i < length (jobs s)" by (simp add: settled_ok_def)
  have ok1: "settled_ok ?s1 i"
    using ok by (cases "cancel s") (simp_all add: settled_ok_deliver)
  have "jobs (animate f a b d now s) ! i = jobs ?s1 ! i"
    using i by (rule animate_fields(5))
  moreover have "calls_of i (animate f a b d now s) = calls_of i ?s1"
    by (rule calls_of_eq) (rule animate_fields(6))
  ultimately show ?thesis
    using ok1 i by (simp add: settled_ok_def animate_fields(3))
qed

lemma settled_ok_step: "settled_ok s i \<Longrightarrow> settled_ok (step e s) i"
  by (cases e) (simp_all add: settled_ok_animate settled_ok_deliver)

lemma settled_ok_run: "settled_ok s i \<Longrightarrow> settled_ok (run evs s) i"
  by (induction evs arbitrary: s) (simp_all add: settled_ok_step)

text \<open>The captured \<open>from\<close> and \<open>to\<close> of a job never change.\<close>

lemma step_job_fixed:
  "i < length (jobs s) \<Longrightarrow>
     i < length (jobs (step e s))
     \<and> w_from (jobs (step e s) ! i) = w_from (jobs s ! i)
     \<and> w_to (jobs (step e s) ! i) = w_to (jobs s ! i)
     \<and> setFunction (jobs (step e s) ! i) = setFunction (jobs s ! i)"
proof (cases e)
  case (Host k ev)
  assume "i < length (jobs s)"
  with Host show ?thesis by (simp add: deliver_jobs)
next
  case (Animate f a b d now)
  assume i: "i < length (jobs s)"
  have "jobs (animate f a b d now s) ! i
          = jobs (case cancel s of None \<Rightarrow> s | Some k \<Rightarrow> deliver k CancelCall s) ! i"
    using i by (rule animate_fields(5))
  with Animate i show ?thesis
    by (cases "cancel s") (simp_all add: animate_fields(3) deliver_jobs)
qed

lemma run_job_fixed:
  "i < length (jobs s) \<Longrightarrow>
     i < length (jobs (run evs s))
     \<and> w_from (jobs (run evs s) ! i) = w_from (jobs s ! i)
     \<and> w_to (jobs (run evs s) ! i) = w_to (jobs s ! i)
     \<and> setFunction (jobs (run evs s) ! i) = setFunction (jobs s ! i)"
proof (induction evs arbitrary: s)
  case Nil
  then show ?case by simp
next
  case (Cons e evs)
  from step_job_fixed [OF Cons.prems, of e] Cons.IH [of "step e s"] show ?case by simp
qed

text \<open>A flushed job makes no further call, whatever happens.\<close>

lemma flushed_step:
  assumes "i < length (jobs s)" "flushed (closure (jobs s ! i))"
  shows "flushed (closure (jobs (step e s) ! i)) \<and> calls_of i (step e s) = calls_of i s"
proof -
  have d: "flushed (closure (jobs (deliver k ev s) ! i)) \<and> calls_of i (deliver k ev s) = calls_of i s"
    for k ev
  proof (cases "k = i")
    case True
    with deliver_flushed(1,2) [OF assms, of ev] show ?thesis by (simp add: calls_of_def)
  next
    case False
    with assms show ?thesis by (simp add: deliver_jobs deliver_calls_of_other)
  qed
  show ?thesis
  proof (cases e)
    case (Host k ev)
    show ?thesis unfolding Host step.simps by (rule d)
  next
    case (Animate f a b dd now)
    let ?s1 = "case cancel s of None \<Rightarrow> s | Some k \<Rightarrow> deliver k CancelCall s"
    have 1: "flushed (closure (jobs ?s1 ! i)) \<and> calls_of i ?s1 = calls_of i s"
    proof (cases "cancel s")
      case None
      with assms show ?thesis by simp
    next
      case (Some k)
      from d [of k CancelCall] show ?thesis unfolding Some by simp
    qed
    have 2: "jobs (animate f a b dd now s) ! i = jobs ?s1 ! i"
      using assms(1) by (rule animate_fields(5))
    have 3: "calls_of i (animate f a b dd now s) = calls_of i ?s1"
      by (rule calls_of_eq) (rule animate_fields(6))
    show ?thesis unfolding Animate step.simps 2 3 by (rule 1)
  qed
qed

lemma flushed_run:
  "i < length (jobs s) \<Longrightarrow> flushed (closure (jobs s ! i)) \<Longrightarrow>
     flushed (closure (jobs (run evs s) ! i)) \<and> calls_of i (run evs s) = calls_of i s"
proof (induction evs arbitrary: s)
  case Nil
  then show ?case by simp
next
  case (Cons e evs)
  from flushed_step [OF Cons.prems, of e] step_job_fixed [OF Cons.prems(1), of e]
  have "i < length (jobs (step e s))" "flushed (closure (jobs (step e s) ! i))"
    "calls_of i (step e s) = calls_of i s" by simp_all
  with Cons.IH [of "step e s"] show ?case by simp
qed

lemma settled_ok_fresh: "settled_ok (animate f a b d now s) (length (jobs s))"
  by (simp add: settled_ok_def animate_fields animate_static_def)

lemma final_value_exact:
  "fl (b - a) = Fin (b - a) \<Longrightarrow> fl b = Fin b \<Longrightarrow> final_value (Fin a) (Fin b) = Fin b"
  by (simp add: final_value_def js_sub_def)

lemma run_append: "run (evs @ later) s = run later (run evs s)"
  by (induction evs arbitrary: s) simp_all

lemma fire_times [simp]:
  "t_end (fst (fire cb ev a c)) = t_end a"
  "t_begin (fst (fire cb ev a c)) = t_begin a"
  "duration (fst (fire cb ev a c)) = duration a"
  by (cases ev; simp add: endAnimation_def tick_def Let_def)+

lemma deliver_times:
  "t_end (closure (jobs (deliver k ev s) ! i)) = t_end (closure (jobs s ! i))"
proof (cases "k = i \<and> i < length (jobs s)")
  case True
  then show ?thesis by (simp add: deliver_closure)
next
  case False
  then show ?thesis
    by (cases "k = i") (simp_all add: deliver_out_of_range deliver_jobs(2))
qed

lemma step_times:
  "i < length (jobs s) \<Longrightarrow> t_end (closure (jobs (step e s) ! i)) = t_end (closure (jobs s ! i))"
proof (cases e)
  case (Host k ev)
  then show ?thesis by (simp add: deliver_times)
next
  case (Animate f a b d now)
  assume i: "i < length (jobs s)"
  have "jobs (animate f a b d now s) ! i
          = jobs (case cancel s of None \<Rightarrow> s | Some k \<Rightarrow> deliver k CancelCall s) ! i"
    using i by (rule animate_fields(5))
  with Animate show ?thesis by (cases "cancel s") (simp_all add: deliver_times)
qed

lemma run_times:
  "i < length (jobs s) \<Longrightarrow> t_end (closure (jobs (run evs s) ! i)) = t_end (closure (jobs s ! i))"
proof (induction evs arbitrary: s)
  case Nil
  then show ?case by simp
next
  case (Cons e evs)
  from step_job_fixed [OF Cons.prems, of e] have "i < length (jobs (step e s))" by simp
  from Cons.IH [OF this] step_times [OF Cons.prems, of e] show ?case by simp
qed

lemma timeout_settles:
  assumes "settled_ok s i"
  shows "flushed (closure (jobs (deliver i TimeoutFires s) ! i))"
proof -
  from assms have i: "i < length (jobs s)" by (simp add: settled_ok_def)
  show ?thesis
  proof (cases "flushed (closure (jobs s ! i))")
    case True
    then show ?thesis using i by (simp add: deliver_closure)
  next
    case False
    with assms have "timeout_pending (closure (jobs s ! i))" by (simp add: settled_ok_def)
    then show ?thesis using i by (simp add: deliver_closure)
  qed
qed

lemma end_tick_settles:
  assumes "i < length (jobs s)" "h \<in> set (frames (closure (jobs s ! i)))"
    "js_ge (clock t) (t_end (closure (jobs s ! i)))"
  shows "flushed (closure (jobs (deliver i (FrameFires h t) s) ! i))"
  using assms by (simp add: deliver_closure tick_flushed_iff)

text \<open>
  Claim C1, as amended.  Take any call \<open>animate(setFn, from, to, duration)\<close>, in
  any state of the controller and for any numbers, and any events after it.
  Once the job is flushed, the last value it has passed to \<open>setFn\<close> is
  \<open>from + (to - from) * 1\<close> as computed in binary64, and no later event makes it
  call again.  The timeout always flushes it, and so does a tick whose clock
  reading has reached the end time.  That last value is \<open>to\<close> itself whenever
  the subtraction \<open>to - from\<close> is exact.
\<close>

theorem final_call_value:
  "(flushed (closure (jobs (run evs (animate f a b d now s0)) ! length (jobs s0))) \<longrightarrow>
      calls_of (length (jobs s0)) (run evs (animate f a b d now s0)) \<noteq> []
    \<and> last (calls_of (length (jobs s0)) (run evs (animate f a b d now s0))) = final_value a b
    \<and> (\<forall>later. calls_of (length (jobs s0)) (run (evs @ later) (animate f a b d now s0))
                 = calls_of (length (jobs s0)) (run evs (animate f a b d now s0))))
   \<and> flushed (closure (jobs (run (evs @ [Host (length (jobs s0)) TimeoutFires])
                               (animate f a b d now s0)) ! length (jobs s0)))
   \<and> (\<forall>h t. h \<in> set (frames (closure (jobs (run evs (animate f a b d now s0)) ! length (jobs s0))))
            \<and> js_ge (clock t) (js_add (clock now) d) \<longrightarrow>
          flushed (closure (jobs (run (evs @ [Host (length (jobs s0)) (FrameFires h t)])
                                   (animate f a b d now s0)) ! length (jobs s0))))
   \<and> (\<forall>x y. a = Fin x \<and> b = Fin y \<and> fl (y - x) = Fin (y - x) \<and> fl y = Fin y \<longrightarrow>
          final_value a b = Fin y)"
proof -
  let ?i = "length (jobs s0)"
  let ?s1 = "animate f a b d now s0"
  let ?s = "run evs ?s1"
  have ok1: "settled_ok ?s1 ?i" by (rule settled_ok_fresh)
  then have i1: "?i < length (jobs ?s1)" by (simp add: settled_ok_def)
  have ok: "settled_ok ?s ?i" by (rule settled_ok_run [OF ok1])
  then have i: "?i < length (jobs ?s)" by (simp add: settled_ok_def)
  have w: "w_from (jobs ?s ! ?i) = a" "w_to (jobs ?s ! ?i) = b"
    using run_job_fixed [OF i1, of evs] by (simp_all add: animate_fields(4))
  have te: "t_end (closure (jobs ?s ! ?i)) = js_add (clock now) d"
    using run_times [OF i1, of evs] by (simp add: animate_fields(4) animate_static_def)
  have 1: "flushed (closure (jobs ?s ! ?i)) \<Longrightarrow>
      calls_of ?i ?s \<noteq> [] \<and> last (calls_of ?i ?s) = final_value a b"
    using ok w by (simp add: settled_ok_def)
  have 2: "flushed (closure (jobs ?s ! ?i)) \<Longrightarrow> calls_of ?i (run (evs @ later) ?s1) = calls_of ?i ?s"
    for later
    using flushed_run [OF i, of later] by (simp add: run_append)
  have 3: "flushed (closure (jobs (run (evs @ [Host ?i TimeoutFires]) ?s1) ! ?i))"
    using timeout_settles [OF ok] by (simp add: run_append)
  have 4: "h \<in> set (frames (closure (jobs ?s ! ?i))) \<Longrightarrow> js_ge (clock t) (js_add (clock now) d) \<Longrightarrow>
      flushed (closure (jobs (run (evs @ [Host ?i (FrameFires h t)]) ?s1) ! ?i))" for h t
    using end_tick_settles [OF i, of h t] te by (simp add: run_append)
  have 5: "a = Fin x \<Longrightarrow> b = Fin y \<Longrightarrow> fl (y - x) = Fin (y - x) \<Longrightarrow> fl y = Fin y \<Longrightarrow>
      final_value a b = Fin y" for x y
    by (simp add: final_value_exact)
  from 1 2 3 4 5 show ?thesis by blast
qed


section \<open>Restarting, and the value of the last call\<close>

theorem final_call_inexact:
  "\<forall>up.
     fl (3152519739159347 / 4503599627370496) = Fin (3152519739159347 / 4503599627370496)
   \<and> fl (3602879701896397 / 36028797018963968) = Fin (3602879701896397 / 36028797018963968)
   \<and> calls_of 0 (run [Host 0 TimeoutFires]
        (animate assign (Fin (3152519739159347 / 4503599627370496))
           (Fin (3602879701896397 / 36028797018963968)) (Fin 1000) 0
           (new_controller (easeInOutCubic up) (Fin 0))))
       = [Fin (900719925474099 / 9007199254740992)]
   \<and> last (calls_of 0 (run [Host 0 TimeoutFires]
        (animate assign (Fin (3152519739159347 / 4503599627370496))
           (Fin (3602879701896397 / 36028797018963968)) (Fin 1000) 0
           (new_controller (easeInOutCubic up) (Fin 0)))))
       \<noteq> Fin (3602879701896397 / 36028797018963968)"
  by (intro allI) (simp add: run_eval dbl_eval)

theorem final_call_value_witness:
  "\<forall>up.
     flushed (closure (jobs (run [Host 0 (FrameFires 0 500), Host 0 TimeoutFires]
      (animate assign (Fin 0) (Fin 100) (Fin 1000) 0 (new_controller (easeInOutCubic up) (Fin 0))) ) ! 0))
   \<and> fl (100 - 0) = Fin (100 - 0) \<and> fl 100 = Fin 100
   \<and> last (calls_of 0 (run [Host 0 (FrameFires 0 500), Host 0 TimeoutFires]
      (animate assign (Fin 0) (Fin 100) (Fin 1000) 0 (new_controller (easeInOutCubic up) (Fin 0)))))
       = Fin 100"
  (is "\<forall>up. ?P up")
proof
  fix up
  let ?s0 = "new_controller (easeInOutCubic up) (Fin 0)"
  let ?evs = "[Host 0 (FrameFires 0 500), Host 0 TimeoutFires]"
  have len: "length (jobs ?s0) = 0" by (simp add: new_controller_def)
  have f: "flushed (closure (jobs (run ?evs (animate assign (Fin 0) (Fin 100) (Fin 1000) 0 ?s0)) ! 0))"
    by (simp add: run_eval dbl_eval ease_half)
  have e: "fl (100 - 0) = Fin (100 - 0)" "fl 100 = Fin 100"
    by (simp_all add: dbl_eval)
  from final_call_value [of ?evs assign "Fin 0" "Fin 100" "Fin 1000" 0 ?s0, unfolded len]
  have "last (calls_of 0 (run ?evs (animate assign (Fin 0) (Fin 100) (Fin 1000) 0 ?s0)))
          = final_value (Fin 0) (Fin 100)"
    and "final_value (Fin 0) (Fin 100) = Fin 100"
    using f e by blast+
  with f e show "?P up" by simp
qed

text \<open>
  Claim C3, as amended.  Let the controller's \<open>cancel\<close> refer to a job in
  flight; in a controller whose fields are coupled, the target of that job is
  \<open>animatingTo\<close>.  A call of \<open>animate\<close> then makes exactly one call of a set function,
  the old job's, with the value \<open>from + (to - from) * 1\<close> of that job as
  computed in binary64 (its target whenever the subtraction is exact); it
  clears the old timeout and the frame request recorded in \<open>tickMarker\<close> and
  leaves the old job flushed, so that it never calls again; and in the same
  call the new job is created in flight and becomes the one \<open>cancel\<close> and
  \<open>animatingTo\<close> refer to.  Nothing is queued.
\<close>

theorem restart_settles_previous:
  assumes "cancel s = Some k" and "in_flight s k"
  shows "calls (animate f a b d now s)
           = calls s @ [(k, final_value (w_from (jobs s ! k)) (w_to (jobs s ! k)))]
     \<and> target (animate f a b d now s)
           = setFunction (jobs s ! k) (final_value (w_from (jobs s ! k)) (w_to (jobs s ! k))) (target s)
     \<and> flushed (closure (jobs (animate f a b d now s) ! k))
     \<and> \<not> timeout_pending (closure (jobs (animate f a b d now s) ! k))
     \<and> (\<forall>h. tickMarker (closure (jobs (animate f a b d now s) ! k)) = Some h \<longrightarrow>
             h \<notin> set (frames (closure (jobs (animate f a b d now s) ! k))))
     \<and> (\<forall>later. calls_of k (run later (animate f a b d now s)) = calls_of k (animate f a b d now s))
     \<and> length (jobs (animate f a b d now s)) = Suc (length (jobs s))
     \<and> jobs (animate f a b d now s) ! length (jobs s)
           = \<lparr> closure = animate_static (easeFunction s) d now, w_from = a, w_to = b, setFunction = f \<rparr>
     \<and> cancel (animate f a b d now s) = Some (length (jobs s))
     \<and> animatingTo (animate f a b d now s) = Some b
     \<and> in_flight (animate f a b d now s) (length (jobs s))
     \<and> (coupled s \<longrightarrow> animatingTo s = Some (w_to (jobs s ! k)))
     \<and> (\<forall>x y. w_from (jobs s ! k) = Fin x \<and> w_to (jobs s ! k) = Fin y
               \<and> fl (y - x) = Fin (y - x) \<and> fl y = Fin y \<longrightarrow>
             final_value (w_from (jobs s ! k)) (w_to (jobs s ! k)) = Fin y)"
proof -
  let ?s1 = "deliver k CancelCall s"
  let ?s' = "animate f a b d now s"
  let ?v = "final_value (w_from (jobs s ! k)) (w_to (jobs s ! k))"
  from assms(2) have k: "k < length (jobs s)" and nf: "\<not> flushed (closure (jobs s ! k))"
    by (simp_all add: in_flight_def)
  have s1: "(case cancel s of None \<Rightarrow> s | Some i \<Rightarrow> deliver i CancelCall s) = ?s1"
    using assms(1) by simp
  have cl: "closure (jobs ?s1 ! k)
              = fst (endAnimation (on_percent k (setFunction (jobs s ! k)) (w_from (jobs s ! k))
                       (w_to (jobs s ! k))) (closure (jobs s ! k)) s)"
    using k by (simp add: deliver_closure)
  have fl1: "flushed (closure (jobs ?s1 ! k))" unfolding cl by simp
  have jk: "jobs ?s' ! k = jobs ?s1 ! k"
    using animate_fields(5) [OF k, of f a b d now] s1 by simp
  have 1: "calls ?s' = calls s @ [(k, ?v)]"
    using deliver_settles(1) [OF k nf fl1] animate_fields(6) [of f a b d now s] s1 by simp
  have 2: "target ?s' = setFunction (jobs s ! k) ?v (target s)"
    using deliver_settles(2) [OF k nf fl1] animate_fields(7) [of f a b d now s] s1 by simp
  have 3: "flushed (closure (jobs ?s' ! k))" unfolding jk by (rule fl1)
  have 4: "\<not> timeout_pending (closure (jobs ?s' ! k))" unfolding jk cl by simp
  have 5: "tickMarker (closure (jobs ?s' ! k)) = Some h \<Longrightarrow> h \<notin> set (frames (closure (jobs ?s' ! k)))" for h
    unfolding jk cl by (rule endAnimation_marker)
  have k': "k < length (jobs ?s')" using k by (simp add: animate_fields(3))
  have 6: "calls_of k (run later ?s') = calls_of k ?s'" for later
    using flushed_run [OF k' 3, of later] by simp
  have 7: "in_flight ?s' (length (jobs s))"
    by (simp add: in_flight_def animate_fields animate_static_def)
  have 8: "w_from (jobs s ! k) = Fin x \<Longrightarrow> w_to (jobs s ! k) = Fin y \<Longrightarrow>
      fl (y - x) = Fin (y - x) \<Longrightarrow> fl y = Fin y \<Longrightarrow> ?v = Fin y" for x y
    by (simp add: final_value_exact)
  have 9: "coupled s \<Longrightarrow> animatingTo s = Some (w_to (jobs s ! k))"
    using assms(1) by (simp add: coupled_def)
  from 1 2 3 4 5 6 7 8 9 show ?thesis
    by (simp add: animate_fields(1,2,3,4))
qed

theorem restart_value_inexact:
  "\<forall>up.
     cancel (animate assign (Fin 1) (Fin 9007199254740994) (Fin 1000) 0
             (new_controller (easeInOutCubic up) (Fin 1))) = Some 0
   \<and> in_flight (animate assign (Fin 1) (Fin 9007199254740994) (Fin 1000) 0
             (new_controller (easeInOutCubic up) (Fin 1))) 0
   \<and> animatingTo (animate assign (Fin 1) (Fin 9007199254740994) (Fin 1000) 0
             (new_controller (easeInOutCubic up) (Fin 1))) = Some (Fin 9007199254740994)
   \<and> fl 9007199254740994 = Fin 9007199254740994
   \<and> calls (animate assign (Fin 9007199254740994) (Fin 1) (Fin 1000) 10
        (animate assign (Fin 1) (Fin 9007199254740994) (Fin 1000) 0
             (new_controller (easeInOutCubic up) (Fin 1))))
       = [(0, Fin 9007199254740992)]"
  by (intro allI) (simp add: run_eval dbl_eval in_flight_def)

theorem restart_settles_previous_witness:
  "\<forall>up.
     cancel (animate assign (Fin 0) (Fin 100) (Fin 1000) 0 (new_controller (easeInOutCubic up) (Fin 0))) = Some 0
   \<and> in_flight (animate assign (Fin 0) (Fin 100) (Fin 1000) 0 (new_controller (easeInOutCubic up) (Fin 0))) 0
   \<and> calls (animate assign (Fin 100) (Fin 200) (Fin 1000) 10
        (animate assign (Fin 0) (Fin 100) (Fin 1000) 0 (new_controller (easeInOutCubic up) (Fin 0))))
       = [(0, Fin 100)]
   \<and> cancel (animate assign (Fin 100) (Fin 200) (Fin 1000) 10
        (animate assign (Fin 0) (Fin 100) (Fin 1000) 0 (new_controller (easeInOutCubic up) (Fin 0)))) = Some 1"
  (is "\<forall>up. ?P up")
proof
  fix up
  let ?s = "animate assign (Fin 0) (Fin 100) (Fin 1000) 0 (new_controller (easeInOutCubic up) (Fin 0))"
  have c: "cancel ?s = Some 0" and i: "in_flight ?s 0"
    by (simp_all add: run_eval in_flight_def)
  have w: "w_from (jobs ?s ! 0) = Fin 0" "w_to (jobs ?s ! 0) = Fin 100" "length (jobs ?s) = 1"
    by (simp_all add: run_eval)
  have e: "fl (100 - 0) = Fin (100 - 0)" "fl 100 = Fin 100"
    by (simp_all add: dbl_eval)
  from restart_settles_previous [OF c i, of assign "Fin 100" "Fin 200" "Fin 1000" 10]
  have "calls (animate assign (Fin 100) (Fin 200) (Fin 1000) 10 ?s)
          = calls ?s @ [(0, final_value (w_from (jobs ?s ! 0)) (w_to (jobs ?s ! 0)))]"
    and "final_value (w_from (jobs ?s ! 0)) (w_to (jobs ?s ! 0)) = Fin 100"
    and "cancel (animate assign (Fin 100) (Fin 200) (Fin 1000) 10 ?s) = Some (length (jobs ?s))"
    using w e by blast+
  moreover have "calls ?s = []" by (simp add: run_eval)
  ultimately show "?P up" using c i w by simp
qed


section \<open>The slider\<close>

lemma first_at_or_after_Inr:
  "first_at_or_after s cur xs = Inr e \<longleftrightarrow>
     (\<exists>pre post. xs = pre @ e # post \<and> js_ge (to_number (offset_left s e)) cur
        \<and> (\<forall>x\<in>set pre. \<not> js_ge (to_number (offset_left s x)) cur))"
proof (induction xs)
  case Nil
  then show ?case by simp
next
  case (Cons x xs)
  show ?case
  proof (cases "js_ge (to_number (offset_left s x)) cur")
    case True
    have "(\<exists>pre post. x # xs = pre @ e # post \<and> js_ge (to_number (offset_left s e)) cur
        \<and> (\<forall>y\<in>set pre. \<not> js_ge (to_number (offset_left s y)) cur)) \<longleftrightarrow> x = e"
    proof
      assume "\<exists>pre post. x # xs = pre @ e # post \<and> js_ge (to_number (offset_left s e)) cur
        \<and> (\<forall>y\<in>set pre. \<not> js_ge (to_number (offset_left s y)) cur)"
      then obtain pre post where p: "x # xs = pre @ e # post"
        "\<forall>y\<in>set pre. \<not> js_ge (to_number (offset_left s y)) cur" by blast
      show "x = e"
      proof (cases pre)
        case Nil
        with p show ?thesis by simp
      next
        case (Cons y ys)
        with p True show ?thesis by auto
      qed
    next
      assume "x = e"
      with True show "\<exists>pre post. x # xs = pre @ e # post \<and> js_ge (to_number (offset_left s e)) cur
        \<and> (\<forall>y\<in>set pre. \<not> js_ge (to_number (offset_left s y)) cur)"
        by (intro exI [of _ "[]"] exI [of _ xs]) simp
    qed
    with True show ?thesis by auto
  next
    case False
    have "(\<exists>pre post. x # xs = pre @ e # post \<and> js_ge (to_number (offset_left s e)) cur
        \<and> (\<forall>y\<in>set pre. \<not> js_ge (to_number (offset_left s y)) cur))
      \<longleftrightarrow> (\<exists>pre post. xs = pre @ e # post \<and> js_ge (to_number (offset_left s e)) cur
        \<and> (\<forall>y\<in>set pre. \<not> js_ge (to_number (offset_left s y)) cur))"
    proof
      assume "\<exists>pre post. x # xs = pre @ e # post \<and> js_ge (to_number (offset_left s e)) cur
        \<and> (\<forall>y\<in>set pre. \<not> js_ge (to_number (offset_left s y)) cur)"
      then obtain pre post where p: "x # xs = pre @ e # post"
        "js_ge (to_number (offset_left s e)) cur"
        "\<forall>y\<in>set pre. \<not> js_ge (to_number (offset_left s y)) cur" by blast
      show "\<exists>pre post. xs = pre @ e # post \<and> js_ge (to_number (offset_left s e)) cur
        \<and> (\<forall>y\<in>set pre. \<not> js_ge (to_number (offset_left s y)) cur)"
      proof (cases pre)
        case Nil
        with p False show ?thesis by simp
      next
        case (Cons y ys)
        with p show ?thesis by (intro exI [of _ ys] exI [of _ post]) simp
      qed
    next
      assume "\<exists>pre post. xs = pre @ e # post \<and> js_ge (to_number (offset_left s e)) cur
        \<and> (\<forall>y\<in>set pre. \<not> js_ge (to_number (offset_left s y)) cur)"
      then obtain pre post where p: "xs = pre @ e # post"
        "js_ge (to_number (offset_left s e)) cur"
        "\<forall>y\<in>set pre. \<not> js_ge (to_number (offset_left s y)) cur" by blast
      with False show "\<exists>pre post. x # xs = pre @ e # post \<and> js_ge (to_number (offset_left s e)) cur
        \<and> (\<forall>y\<in>set pre. \<not> js_ge (to_number (offset_left s y)) cur)"
        by (intro exI [of _ "x # pre"] exI [of _ post]) simp
    qed
    with False Cons.IH show ?thesis by simp
  qed
qed

lemma first_at_or_after_Inl:
  "first_at_or_after s cur xs = Inl err \<longleftrightarrow>
     err = BadState \<and> (\<forall>x\<in>set xs. \<not> js_ge (to_number (offset_left s x)) cur)"
  by (induction xs) auto

text \<open>
  Claim C2.  For a slider with given slides and scroll state, \<open>currentElement\<close>
  returns the first slide, in the order of the list, whose left offset is
  \<open>>=\<close> the effective scroll position, and it throws exactly when no slide is;
  what it throws is the "Bad state" error.  The effective scroll position is
  the target of the animation while the controller is animating and the
  container's \<open>scrollLeft\<close> otherwise.
\<close>

theorem currentElement_first:
  "(currentElement s = Inr e \<longleftrightarrow>
      (\<exists>pre post. slides s = pre @ e # post
         \<and> js_ge (to_number (offset_left s e)) (currentScroll s)
         \<and> (\<forall>x\<in>set pre. \<not> js_ge (to_number (offset_left s x)) (currentScroll s))))
   \<and> ((\<exists>err. currentElement s = Inl err) \<longleftrightarrow>
        (\<forall>x\<in>set (slides s). \<not> js_ge (to_number (offset_left s x)) (currentScroll s)))
   \<and> (currentElement s = Inl err \<longrightarrow> err = BadState)
   \<and> (isAnimating (scrollAnimeController s) \<longrightarrow>
        animatingTo (scrollAnimeController s) = Some (currentScroll s))
   \<and> (\<not> isAnimating (scrollAnimeController s) \<longrightarrow> currentScroll s = scrollLeft s)"
  by (auto simp add: currentElement_def first_at_or_after_Inr first_at_or_after_Inl
        currentScroll_def isAnimating_def split: option.splits)

lemma indexOf_nonneg_iff: "0 \<le> indexOf xs x \<longleftrightarrow> x \<in> set xs"
  by (induction xs) (auto simp add: Let_def)

lemma indexOf_hd: "xs \<noteq> [] \<Longrightarrow> indexOf xs (hd xs) = 0"
  by (cases xs) simp_all

lemma indexOf_lower: "- 1 \<le> indexOf xs x"
  by (induction xs) (auto simp add: Let_def)

lemma indexOf_append_fresh:
  "x \<notin> set xs \<Longrightarrow> indexOf (xs @ [x]) x = int (length xs)"
  by (induction xs) (auto simp add: Let_def)

lemma indexOf_last: "distinct xs \<Longrightarrow> xs \<noteq> [] \<Longrightarrow> indexOf xs (last xs) = int (length xs) - 1"
proof -
  assume d: "distinct xs" and n: "xs \<noteq> []"
  from n have xs: "butlast xs @ [last xs] = xs" by simp
  from d have "distinct (butlast xs @ [last xs])" by (simp only: xs)
  then have "last xs \<notin> set (butlast xs)" by simp
  from indexOf_append_fresh [OF this] have "indexOf xs (last xs) = int (length (butlast xs))"
    by (simp only: xs)
  with n show ?thesis by (simp add: of_nat_diff Suc_leI)
qed

lemma indexOf_nth:
  "x \<in> set xs \<Longrightarrow> nat (indexOf xs x) < length xs \<and> xs ! nat (indexOf xs x) = x"
proof (induction xs)
  case Nil
  then show ?case by simp
next
  case (Cons y ys)
  show ?case
  proof (cases "y = x")
    case True
    then show ?thesis by simp
  next
    case False
    with Cons.prems have m: "x \<in> set ys" by simp
    then have "0 \<le> indexOf ys x" by (simp add: indexOf_nonneg_iff)
    with Cons.IH [OF m] False show ?thesis by (simp add: Let_def nat_add_distrib)
  qed
qed

text \<open>
  Claim C4.  In a slider (whose slides are distinct elements) with the last
  slide as current element, a click on "next" returns without an error and
  leaves the whole state as it was: no animation is started.  The same holds
  of a click on "previous" when the current element is the first slide.
\<close>

theorem click_at_end_is_noop:
  assumes "distinct (slides s)" and "slides s \<noteq> []"
  shows "(currentElement s = Inr (last (slides s)) \<longrightarrow> onNextClick now s = Inr s)
       \<and> (currentElement s = Inr (hd (slides s)) \<longrightarrow> onPreviusClick now s = Inr s)"
  using assms
  by (simp add: onNextClick_def onPreviusClick_def nextElement_def previousElement_def
        indexOf_last indexOf_hd at_index_def)

lemma currentElement_member: "currentElement s = Inr cur \<Longrightarrow> cur \<in> set (slides s)"
  by (auto simp add: currentElement_def first_at_or_after_Inr)

lemma indexOf_distinct: "distinct xs \<Longrightarrow> j < length xs \<Longrightarrow> indexOf xs (xs ! j) = int j"
proof (induction xs arbitrary: j)
  case Nil
  then show ?case by simp
next
  case (Cons y ys)
  show ?case
  proof (cases j)
    case 0
    then show ?thesis by simp
  next
    case (Suc i)
    with Cons.prems have i: "i < length ys" and d: "distinct ys" and "ys ! i \<noteq> y" by auto
    with Cons.IH [OF d i] Suc show ?thesis by (simp add: Let_def)
  qed
qed

text \<open>A slide that a getter finds is the neighbour of the current element.\<close>

lemma nextElement_found:
  assumes "nextElement s = Inr (Some n)"
  shows "\<exists>cur j. currentElement s = Inr cur \<and> j + 1 < length (slides s)
          \<and> slides s ! j = cur \<and> slides s ! (j + 1) = n"
proof -
  from assms obtain cur where cur: "currentElement s = Inr cur"
    and at: "at_index (slides s) (indexOf (slides s) cur + 1) = Some n"
    by (auto simp add: nextElement_def split: sum.splits)
  from currentElement_member [OF cur] have m: "cur \<in> set (slides s)" .
  let ?j = "nat (indexOf (slides s) cur)"
  from m have nn: "0 \<le> indexOf (slides s) cur" by (simp add: indexOf_nonneg_iff)
  from indexOf_nth [OF m] have j: "slides s ! ?j = cur" by simp
  from at nn have "?j + 1 < length (slides s)" "slides s ! (?j + 1) = n"
    by (auto simp add: at_index_def nat_add_distrib split: if_splits)
  with cur j show ?thesis by blast
qed

lemma previousElement_found:
  assumes "previousElement s = Inr (Some p)"
  shows "\<exists>cur j. currentElement s = Inr cur \<and> j + 1 < length (slides s)
          \<and> slides s ! (j + 1) = cur \<and> slides s ! j = p"
proof -
  from assms obtain cur where cur: "currentElement s = Inr cur"
    and at: "at_index (slides s) (indexOf (slides s) cur - 1) = Some p"
    by (auto simp add: previousElement_def split: sum.splits)
  from currentElement_member [OF cur] have m: "cur \<in> set (slides s)" .
  let ?i = "indexOf (slides s) cur"
  let ?j = "nat (?i - 1)"
  from at have pos: "0 \<le> ?i - 1" and pj: "slides s ! ?j = p"
    by (auto simp add: at_index_def split: if_splits)
  from pos have eq: "?j + 1 = nat ?i" by simp
  from indexOf_nth [OF m] have "nat ?i < length (slides s)" "slides s ! nat ?i = cur" by simp_all
  with eq have "?j + 1 < length (slides s)" "slides s ! (?j + 1) = cur" by simp_all
  with cur pj show ?thesis by blast
qed

text \<open>
  Claim C7.  In a slider whose slides are distinct elements, let the slides at
  the positions \<open>j\<close> and \<open>j + 1\<close> of the list both exist.  If the current
  element is the slide at \<open>j\<close>, a click on "next" returns what \<open>scrollTo\<close> does
  with the left offset of the slide at \<open>j + 1\<close>; if the current element is the
  slide at \<open>j + 1\<close>, a click on "previous" returns what \<open>scrollTo\<close> does with the
  left offset of the slide at \<open>j\<close>: one slide per click.  And \<open>scrollTo\<close> with
  the left offset of a slide \<open>e\<close> starts an animation of the container's
  \<open>scrollLeft\<close>: it creates a job, which \<open>cancel\<close> and \<open>animatingTo\<close> then refer
  to, that began at the click and ends 1000 ms later, is not flushed, has its
  timeout armed and its first frame requested, and goes from the \<open>scrollLeft\<close>
  read at the click to the left offset of \<open>e\<close>.  A frame callback of that job
  that runs before the end writes \<open>from + (to - from) * ease(elapsed / 1000)\<close>
  to the container's \<open>scrollLeft\<close>; one that runs at or after the end, or the
  timeout, writes \<open>from + (to - from) * 1\<close> and leaves the controller idle.
\<close>

theorem click_scrolls_one_slide:
  assumes "distinct (slides s)" and "j + 1 < length (slides s)"
  shows "(currentElement s = Inr (slides s ! j) \<longrightarrow>
            onNextClick now s = Inr (scrollTo (offset_left s (slides s ! (j + 1))) now s))
       \<and> (currentElement s = Inr (slides s ! (j + 1)) \<longrightarrow>
            onPreviusClick now s = Inr (scrollTo (offset_left s (slides s ! j)) now s))
       \<and> jobs (scrollAnimeController (scrollTo (offset_left s e) now s))
            ! length (jobs (scrollAnimeController s))
           = \<lparr> closure = \<lparr> t_begin = clock now, t_end = js_add (clock now) (Fin 1000),
                           duration = Fin 1000, a_ease = easeFunction (scrollAnimeController s),
                           flushed = False, timeout_pending = True, tickMarker = None,
                           frames = [0], next_frame = 1 \<rparr>,
               w_from = scrollLeft s, w_to = to_number (offset_left s e),
               setFunction = (\<lambda>v _. stored s v) \<rparr>
       \<and> cancel (scrollAnimeController (scrollTo (offset_left s e) now s))
            = Some (length (jobs (scrollAnimeController s)))
       \<and> animatingTo (scrollAnimeController (scrollTo (offset_left s e) now s))
            = Some (to_number (offset_left s e))
       \<and> (\<not> js_ge (clock t) (js_add (clock now) (Fin 1000)) \<longrightarrow>
            target (deliver (length (jobs (scrollAnimeController s))) (FrameFires 0 t)
                      (scrollAnimeController (scrollTo (offset_left s e) now s)))
              = stored s (js_add (scrollLeft s)
                            (js_mul (js_sub (to_number (offset_left s e)) (scrollLeft s))
                               (easeFunction (scrollAnimeController s)
                                  (js_div (js_sub (clock t) (clock now)) (Fin 1000))))))
       \<and> (js_ge (clock t) (js_add (clock now) (Fin 1000)) \<longrightarrow>
            target (deliver (length (jobs (scrollAnimeController s))) (FrameFires 0 t)
                      (scrollAnimeController (scrollTo (offset_left s e) now s)))
              = stored s (final_value (scrollLeft s) (to_number (offset_left s e))))
       \<and> target (deliver (length (jobs (scrollAnimeController s))) TimeoutFires
                   (scrollAnimeController (scrollTo (offset_left s e) now s)))
           = stored s (final_value (scrollLeft s) (to_number (offset_left s e)))
       \<and> animatingTo (deliver (length (jobs (scrollAnimeController s))) TimeoutFires
                   (scrollAnimeController (scrollTo (offset_left s e) now s))) = None"
proof -
  let ?c = "scrollAnimeController s"
  let ?c' = "scrollAnimeController (scrollTo (offset_left s e) now s)"
  let ?to = "to_number (offset_left s e)"
  from assms have i0: "indexOf (slides s) (slides s ! j) = int j"
    and i1: "indexOf (slides s) (slides s ! (j + 1)) = int (j + 1)"
    by (simp_all add: indexOf_distinct)
  have nx: "onNextClick now s = Inr (scrollTo (offset_left s (slides s ! (j + 1))) now s)"
    if "currentElement s = Inr (slides s ! j)"
    using that assms(2) i0
    by (simp add: onNextClick_def nextElement_def at_index_def nat_add_distrib)
  have pv: "onPreviusClick now s = Inr (scrollTo (offset_left s (slides s ! j)) now s)"
    if "currentElement s = Inr (slides s ! (j + 1))"
    using that assms(2) i1
    by (simp add: onPreviusClick_def previousElement_def at_index_def)
  have job: "jobs ?c' ! length (jobs ?c)
      = \<lparr> closure = \<lparr> t_begin = clock now, t_end = js_add (clock now) (Fin 1000),
                      duration = Fin 1000, a_ease = easeFunction ?c,
                      flushed = False, timeout_pending = True, tickMarker = None,
                      frames = [0], next_frame = 1 \<rparr>,
          w_from = scrollLeft s, w_to = ?to, setFunction = (\<lambda>v _. stored s v) \<rparr>"
    by (simp add: scrollTo_def animate_fields transitionDuration_def animate_static_def)
  have fld: "cancel ?c' = Some (length (jobs ?c))" "animatingTo ?c' = Some ?to"
    by (simp_all add: scrollTo_def animate_fields)
  have len: "length (jobs ?c) < length (jobs ?c')"
    by (simp add: scrollTo_def animate_fields)
  have f1: "target (deliver (length (jobs ?c)) (FrameFires 0 t) ?c')
      = stored s (js_add (scrollLeft s) (js_mul (js_sub ?to (scrollLeft s))
          (easeFunction ?c (js_div (js_sub (clock t) (clock now)) (Fin 1000)))))"
    if "\<not> js_ge (clock t) (js_add (clock now) (Fin 1000))"
    using that len by (simp add: deliver_fields job tick_def)
  have f2: "target (deliver (length (jobs ?c)) (FrameFires 0 t) ?c')
      = stored s (final_value (scrollLeft s) ?to)"
    if "js_ge (clock t) (js_add (clock now) (Fin 1000))"
    using that len by (simp add: deliver_fields job tick_def endAnimation_def final_value_def)
  have tm: "target (deliver (length (jobs ?c)) TimeoutFires ?c')
      = stored s (final_value (scrollLeft s) ?to)"
    "animatingTo (deliver (length (jobs ?c)) TimeoutFires ?c') = None"
    using len by (simp_all add: deliver_fields job endAnimation_def final_value_def)
  from nx pv f1 f2 show ?thesis
    by (simp add: job fld tm)
qed

lemmas slider_eval = three_slides_def new_slider_def currentElement_def currentScroll_def
  scrollLeft_def new_controller_def offset_left_def getOffset_def js_or_def js_ge_def
  nextElement_def previousElement_def at_index_def isAnimating_def

theorem currentElement_first_witness:
  "\<forall>up.
     currentElement (three_slides up (Fin 300)) = Inr 11
   \<and> \<not> js_ge (to_number (offset_left (three_slides up (Fin 300)) 10))
            (currentScroll (three_slides up (Fin 300)))
   \<and> currentScroll (three_slides up (Fin 300)) = Fin 300
   \<and> (\<exists>err. currentElement (three_slides up (Fin 700)) = Inl err)"
  (is "\<forall>up. ?P up")
proof
  fix up
  let ?s = "three_slides up (Fin 300)"
  have "slides ?s = [10] @ 11 # [12]
      \<and> js_ge (to_number (offset_left ?s 11)) (currentScroll ?s)
      \<and> (\<forall>x\<in>set [10]. \<not> js_ge (to_number (offset_left ?s x)) (currentScroll ?s))"
    by (simp add: slider_eval)
  then have "\<exists>pre post. slides ?s = pre @ 11 # post
      \<and> js_ge (to_number (offset_left ?s 11)) (currentScroll ?s)
      \<and> (\<forall>x\<in>set pre. \<not> js_ge (to_number (offset_left ?s x)) (currentScroll ?s))"
    by blast
  with currentElement_first [of ?s 11] have 1: "currentElement ?s = Inr 11" by blast
  have na: "\<not> isAnimating (scrollAnimeController ?s)" by (simp add: slider_eval)
  with currentElement_first [of ?s 11] have 2: "currentScroll ?s = scrollLeft ?s" by blast
  have "\<forall>x\<in>set (slides (three_slides up (Fin 700))).
          \<not> js_ge (to_number (offset_left (three_slides up (Fin 700)) x))
               (currentScroll (three_slides up (Fin 700)))"
    by (simp add: slider_eval)
  with currentElement_first [of "three_slides up (Fin 700)" 11]
  have 3: "\<exists>err. currentElement (three_slides up (Fin 700)) = Inl err" by blast
  from 1 2 3 show "?P up" by (simp add: slider_eval)
qed

theorem click_at_end_is_noop_witness:
  "\<forall>up.
     distinct (slides (three_slides up (Fin 600))) \<and> slides (three_slides up (Fin 600)) \<noteq> []
   \<and> currentElement (three_slides up (Fin 600)) = Inr (last (slides (three_slides up (Fin 600))))
   \<and> onNextClick 0 (three_slides up (Fin 600)) = Inr (three_slides up (Fin 600))
   \<and> currentElement (three_slides up (Fin 0)) = Inr (hd (slides (three_slides up (Fin 0))))
   \<and> onPreviusClick 0 (three_slides up (Fin 0)) = Inr (three_slides up (Fin 0))"
  (is "\<forall>up. ?P up")
proof
  fix up
  have d: "distinct (slides (three_slides up x))" "slides (three_slides up x) \<noteq> []" for x
    by (simp_all add: slider_eval)
  have c1: "currentElement (three_slides up (Fin 600))
              = Inr (last (slides (three_slides up (Fin 600))))"
    by (simp add: slider_eval)
  have c2: "currentElement (three_slides up (Fin 0)) = Inr (hd (slides (three_slides up (Fin 0))))"
    by (simp add: slider_eval)
  from click_at_end_is_noop [OF d, of "Fin 600" 0] c1
  have 1: "onNextClick 0 (three_slides up (Fin 600)) = Inr (three_slides up (Fin 600))" by blast
  from click_at_end_is_noop [OF d, of "Fin 0" 0] c2
  have 2: "onPreviusClick 0 (three_slides up (Fin 0)) = Inr (three_slides up (Fin 0))" by blast
  from d c1 c2 1 2 show "?P up" by simp
qed

text \<open>
  In the slider with three slides scrolled to 300, the current element is the
  second slide.  A click on "next" at time 5 starts the animation from 300 to
  600, the offset of the third and last slide: its frame callback at time 505
  writes 450 and its timeout writes 600.  A click on "previous" starts the
  animation to 0, the offset of the first slide.
\<close>

theorem click_scrolls_one_slide_witness:
  "\<forall>up.
     distinct (slides (three_slides up (Fin 300)))
   \<and> 1 + 1 < length (slides (three_slides up (Fin 300)))
   \<and> currentElement (three_slides up (Fin 300)) = Inr (slides (three_slides up (Fin 300)) ! 1)
   \<and> offset_left (three_slides up (Fin 300)) (slides (three_slides up (Fin 300)) ! (1 + 1))
       = JNum (Fin 600)
   \<and> nextElement (three_slides up (Fin 300)) = Inr (Some 12)
   \<and> previousElement (three_slides up (Fin 300)) = Inr (Some 10)
   \<and> w_from (jobs (scrollAnimeController
           (scrollTo (JNum (Fin 600)) 5 (three_slides up (Fin 300)))) ! 0) = Fin 300
   \<and> w_to (jobs (scrollAnimeController
           (scrollTo (JNum (Fin 600)) 5 (three_slides up (Fin 300)))) ! 0) = Fin 600
   \<and> duration (closure (jobs (scrollAnimeController
           (scrollTo (JNum (Fin 600)) 5 (three_slides up (Fin 300)))) ! 0)) = Fin 1000
   \<and> timeout_pending (closure (jobs (scrollAnimeController
           (scrollTo (JNum (Fin 600)) 5 (three_slides up (Fin 300)))) ! 0))
   \<and> frames (closure (jobs (scrollAnimeController
           (scrollTo (JNum (Fin 600)) 5 (three_slides up (Fin 300)))) ! 0)) = [0]
   \<and> onNextClick 5 (three_slides up (Fin 300))
       = Inr (scrollTo (JNum (Fin 600)) 5 (three_slides up (Fin 300)))
   \<and> offset_left (three_slides up (Fin 300)) (slides (three_slides up (Fin 300)) ! 0)
       = JNum (Fin 0)
   \<and> onPreviusClick 5 (three_slides up (Fin 300))
       = Inr (scrollTo (JNum (Fin 0)) 5 (three_slides up (Fin 300)))
   \<and> \<not> js_ge (clock 505) (js_add (clock 5) (Fin 1000))
   \<and> target (deliver 0 (FrameFires 0 505)
               (scrollAnimeController (scrollTo (JNum (Fin 600)) 5 (three_slides up (Fin 300)))))
       = Fin 450
   \<and> js_ge (clock 1005) (js_add (clock 5) (Fin 1000))
   \<and> target (deliver 0 (FrameFires 0 1005)
               (scrollAnimeController (scrollTo (JNum (Fin 600)) 5 (three_slides up (Fin 300)))))
       = Fin 600
   \<and> target (deliver 0 TimeoutFires
               (scrollAnimeController (scrollTo (JNum (Fin 600)) 5 (three_slides up (Fin 300)))))
       = Fin 600"
  (is "\<forall>up. ?P up")
proof
  fix up
  let ?s = "three_slides up (Fin 300)"
  have d: "distinct (slides ?s)" and l: "1 + 1 < length (slides ?s)" "0 + 1 < length (slides ?s)"
    and c: "currentElement ?s = Inr (slides ?s ! 1)" "currentElement ?s = Inr (slides ?s ! (0 + 1))"
    and o: "offset_left ?s (slides ?s ! (1 + 1)) = JNum (Fin 600)"
      "offset_left ?s (slides ?s ! 0) = JNum (Fin 0)" "offset_left ?s 12 = JNum (Fin 600)"
    and k: "length (jobs (scrollAnimeController ?s)) = 0"
    and v: "scrollLeft ?s = Fin 300" "stored ?s = (\<lambda>v. v)"
      "easeFunction (scrollAnimeController ?s) = easeInOutCubic up"
    by (simp_all add: slider_eval)
  have t1: "\<not> js_ge (clock 505) (js_add (clock 5) (Fin 1000))"
    and t2: "js_ge (clock 1005) (js_add (clock 5) (Fin 1000))"
    by (simp_all add: clock_def js_ge_def dbl_eval)
  have h: "js_div (js_sub (clock 505) (clock 5)) (Fin 1000) = Fin (1 / 2)"
    by (simp add: clock_def js_sub_def dbl_eval)
  have a1: "js_add (Fin 300) (js_mul (js_sub (Fin 600) (Fin 300)) (Fin (1 / 2))) = Fin 450"
    and a2: "final_value (Fin 300) (Fin 600) = Fin 600"
    by (simp_all add: final_value_def js_sub_def dbl_eval)
  note t = click_scrolls_one_slide [OF d l(1), where now = 5 and e = 12, unfolded o k v]
  note t' = click_scrolls_one_slide [OF d l(2), where now = 5, unfolded o k v]
  from t c(1) have 1: "onNextClick 5 ?s = Inr (scrollTo (JNum (Fin 600)) 5 ?s)" by blast
  from t' c(2) have 2: "onPreviusClick 5 ?s = Inr (scrollTo (JNum (Fin 0)) 5 ?s)" by blast
  from t [where t = 505] t1
  have 3: "target (deliver 0 (FrameFires 0 505) (scrollAnimeController (scrollTo (JNum (Fin 600)) 5 ?s)))
             = Fin 450"
    by (simp add: h ease_half a1)
  from t [where t = 1005] t2
  have 4: "target (deliver 0 (FrameFires 0 1005) (scrollAnimeController (scrollTo (JNum (Fin 600)) 5 ?s)))
             = Fin 600"
    by (simp add: a2)
  from t [where t = 0]
  have 5: "target (deliver 0 TimeoutFires (scrollAnimeController (scrollTo (JNum (Fin 600)) 5 ?s)))
             = Fin 600"
    by (simp add: a2)
  have n: "nextElement ?s = Inr (Some 12)" "previousElement ?s = Inr (Some 10)"
    by (simp_all add: slider_eval)
  have j: "w_from (jobs (scrollAnimeController (scrollTo (JNum (Fin 600)) 5 ?s)) ! 0) = Fin 300"
    "w_to (jobs (scrollAnimeController (scrollTo (JNum (Fin 600)) 5 ?s)) ! 0) = Fin 600"
    "duration (closure (jobs (scrollAnimeController (scrollTo (JNum (Fin 600)) 5 ?s)) ! 0)) = Fin 1000"
    "timeout_pending (closure (jobs (scrollAnimeController (scrollTo (JNum (Fin 600)) 5 ?s)) ! 0))"
    "frames (closure (jobs (scrollAnimeController (scrollTo (JNum (Fin 600)) 5 ?s)) ! 0)) = [0]"
    by (simp_all add: scrollTo_def slider_eval animate_def animate_static_def transitionDuration_def)
  from d l(1) c(1) o(1,2) n j 1 2 t1 t2 3 4 5 show "?P up" by simp
qed


section \<open>Two animations in flight\<close>

text \<open>
  Claim C6 fails on the code.  The callback takes an eased value equal to 1
  for the end of the animation.  With \<open>easeInOutCubic\<close> and a duration of
  1000000 ms, the tick one millisecond before the end computes
  \<open>1 - (2 - 2 * 0.999999)\<^sup>3 / 2\<close>, which is 1 in binary64 whichever neighbour of the
  cube the engine's \<open>Math.pow\<close> returns: the controller resets
  \<open>cancel\<close> and \<open>animatingTo\<close> while the timeout and the next frame of that
  animation are still pending.  An \<open>animate\<close> called then finds nothing to
  cancel, and two animations are in flight.
\<close>

theorem two_in_flight:
  "\<forall>up.
     in_flight (run [Animate assign (Fin 0) (Fin 100) (Fin 1000000) 0,
                   Host 0 (FrameFires 0 999999),
                   Animate assign (Fin 100) (Fin 200) (Fin 1000) 999999]
                (new_controller (easeInOutCubic up) (Fin 0))) 0
   \<and> in_flight (run [Animate assign (Fin 0) (Fin 100) (Fin 1000000) 0,
                   Host 0 (FrameFires 0 999999),
                   Animate assign (Fin 100) (Fin 200) (Fin 1000) 999999]
                (new_controller (easeInOutCubic up) (Fin 0))) 1"
  by (intro allI) (simp add: run_eval in_flight_def dbl_eval ease_near_end)


section \<open>Rounding is monotone\<close>

lemma round_even_of_int [simp]: "round_even (of_int n) = n"
  by (simp add: round_even_def)

lemma round_even_bounds: "\<lfloor>x\<rfloor> \<le> round_even x \<and> round_even x \<le> \<lfloor>x\<rfloor> + 1"
  by (simp add: round_even_def Let_def)

lemma round_even_mono: "x \<le> y \<Longrightarrow> round_even x \<le> round_even y"
proof -
  assume xy: "x \<le> y"
  then have f: "\<lfloor>x\<rfloor> \<le> \<lfloor>y\<rfloor>" by (rule floor_mono)
  show ?thesis
  proof (cases "\<lfloor>x\<rfloor> = \<lfloor>y\<rfloor>")
    case True
    with xy have "x - of_int \<lfloor>x\<rfloor> \<le> y - of_int \<lfloor>y\<rfloor>" by simp
    with True show ?thesis by (auto simp add: round_even_def Let_def)
  next
    case False
    with f have "\<lfloor>x\<rfloor> + 1 \<le> \<lfloor>y\<rfloor>" by simp
    with round_even_bounds [of x] round_even_bounds [of y] show ?thesis by linarith
  qed
qed

lemma round_even_le_int: "x \<le> of_int n \<Longrightarrow> round_even x \<le> n"
  using round_even_mono [of x "of_int n"] by simp

lemma round_even_ge_int: "of_int n \<le> x \<Longrightarrow> n \<le> round_even x"
  using round_even_mono [of "of_int n" x] by simp

lemma expo_up_spec:
  "2 powi e \<le> x \<Longrightarrow> e \<le> 1024 \<Longrightarrow>
     e \<le> expo_up x e \<and> expo_up x e \<le> 1024 \<and> 2 powi (expo_up x e) \<le> x
     \<and> (expo_up x e < 1024 \<longrightarrow> x < 2 powi (expo_up x e + 1))"
proof (induction x e rule: expo_up.induct)
  case (1 x e)
  show ?case
  proof (cases "1024 \<le> e \<or> x < 2 powi (e + 1)")
    case True
    with "1.prems" show ?thesis by (subst (1 2 3 4 5) expo_up.simps) auto
  next
    case False
    then have a: "2 powi (e + 1) \<le> x" "e + 1 \<le> 1024" by simp_all
    from "1.IH" [OF False a] False show ?thesis
      by (subst (1 2 3 4 5) expo_up.simps) auto
  qed
qed

lemma expo_down_spec:
  "x < 2 powi (e + 1) \<Longrightarrow> - 1022 \<le> e \<Longrightarrow>
     expo_down x e \<le> e \<and> - 1022 \<le> expo_down x e \<and> x < 2 powi (expo_down x e + 1)
     \<and> (- 1022 < expo_down x e \<longrightarrow> 2 powi (expo_down x e) \<le> x)"
proof (induction x e rule: expo_down.induct)
  case (1 x e)
  show ?case
  proof (cases "e \<le> - 1022 \<or> 2 powi e \<le> x")
    case True
    with "1.prems" show ?thesis by (subst (1 2 3 4 5) expo_down.simps) auto
  next
    case False
    then have a: "x < 2 powi (e - 1 + 1)" "- 1022 \<le> e - 1" by simp_all
    from "1.IH" [OF False a] False show ?thesis
      by (subst (1 2 3 4 5) expo_down.simps) auto
  qed
qed

lemma expo_range: "- 1022 \<le> expo x \<and> expo x \<le> 1024"
proof (cases "1 \<le> x")
  case True
  with expo_up_spec [of 0 x] show ?thesis by (simp add: expo_def)
next
  case False
  with expo_down_spec [of x 0] show ?thesis by (simp add: expo_def)
qed

lemma expo_lower: "- 1022 < expo x \<Longrightarrow> 2 powi (expo x) \<le> x"
proof (cases "1 \<le> x")
  case True
  with expo_up_spec [of 0 x] show ?thesis by (simp add: expo_def)
next
  case False
  assume "- 1022 < expo x"
  with False expo_down_spec [of x 0] show ?thesis by (simp add: expo_def)
qed

lemma expo_upper: "expo x < 1024 \<Longrightarrow> x < 2 powi (expo x + 1)"
proof (cases "1 \<le> x")
  case True
  assume "expo x < 1024"
  with True expo_up_spec [of 0 x] show ?thesis by (simp add: expo_def)
next
  case False
  with expo_down_spec [of x 0] show ?thesis by (simp add: expo_def)
qed

lemma expo_mono: "x \<le> y \<Longrightarrow> expo x \<le> expo y"
proof (rule ccontr)
  assume xy: "x \<le> y" and "\<not> expo x \<le> expo y"
  then have lt: "expo y < expo x" by simp
  with expo_range [of y] have "- 1022 < expo x" by simp
  from expo_lower [OF this] xy have 1: "2 powi (expo x) \<le> y" by simp
  from lt expo_range [of x] have "expo y < 1024" by simp
  from expo_upper [OF this] have 2: "y < 2 powi (expo y + 1)" .
  from lt have "(2::real) powi (expo y + 1) \<le> 2 powi (expo x)"
    by (intro power_int_increasing) simp_all
  with 1 2 show False by simp
qed

lemma pow_split:
  "(2::real) powi (e + 1) = 9007199254740992 * 2 powi (e - 52)"
  "(2::real) powi e = 4503599627370496 * 2 powi (e - 52)"
proof -
  have "(2::real) powi (53 + (e - 52)) = 2 powi 53 * 2 powi (e - 52)"
    by (rule power_int_add) simp
  moreover have "53 + (e - 52) = e + 1" by simp
  ultimately have "(2::real) powi (e + 1) = 2 powi 53 * 2 powi (e - 52)" by (simp only:)
  then show "(2::real) powi (e + 1) = 9007199254740992 * 2 powi (e - 52)" by simp
  have "(2::real) powi (52 + (e - 52)) = 2 powi 52 * 2 powi (e - 52)"
    by (rule power_int_add) simp
  moreover have "52 + (e - 52) = e" by simp
  ultimately have "(2::real) powi e = 2 powi 52 * 2 powi (e - 52)" by (simp only:)
  then show "(2::real) powi e = 4503599627370496 * 2 powi (e - 52)" by simp
qed

lemma ulp_pos: "0 < (2::real) powi k"
  by simp

lemma rnd_at_mono:
  "0 < u \<Longrightarrow> x \<le> y \<Longrightarrow> of_int (round_even (x / u)) * u \<le> of_int (round_even (y / u)) * (u::real)"
  by (simp add: round_even_mono divide_right_mono)

lemma rnd_at_le: "0 < u \<Longrightarrow> x \<le> of_int n * u \<Longrightarrow> of_int (round_even (x / u)) * u \<le> of_int n * (u::real)"
proof -
  assume u: "0 < u" and "x \<le> of_int n * u"
  then have "x / u \<le> of_int n" by (simp add: pos_divide_le_eq)
  then have "round_even (x / u) \<le> n" by (rule round_even_le_int)
  then have "(of_int (round_even (x / u))::real) \<le> of_int n" by simp
  with u show ?thesis by simp
qed

lemma rnd_at_ge: "0 < u \<Longrightarrow> of_int n * u \<le> x \<Longrightarrow> of_int n * (u::real) \<le> of_int (round_even (x / u)) * u"
proof -
  assume u: "0 < u" and "of_int n * u \<le> x"
  then have "of_int n \<le> x / u" by (simp add: pos_le_divide_eq)
  then have "n \<le> round_even (x / u)" by (rule round_even_ge_int)
  then have "(of_int n::real) \<le> of_int (round_even (x / u))" by simp
  with u show ?thesis by simp
qed

lemma rnd_nonneg: "0 \<le> x \<Longrightarrow> 0 \<le> rnd x"
  using rnd_at_ge [of "2 powi (expo \<bar>x\<bar> - 52)" 0 x] by (simp add: rnd_def)

lemma rnd_nonpos: "x \<le> 0 \<Longrightarrow> rnd x \<le> 0"
  using rnd_at_le [of "2 powi (expo \<bar>x\<bar> - 52)" x 0] by (simp add: rnd_def)

lemma rnd_unfold: "rnd x = of_int (round_even (x / 2 powi (expo \<bar>x\<bar> - 52))) * 2 powi (expo \<bar>x\<bar> - 52)"
  by (simp add: rnd_def)

lemma rnd_le_top: "0 \<le> x \<Longrightarrow> expo x < 1024 \<Longrightarrow> rnd x \<le> 2 powi (expo x + 1)"
proof -
  assume x: "0 \<le> x" and e: "expo x < 1024"
  define u :: real where "u = 2 powi (expo \<bar>x\<bar> - 52)"
  have u: "0 < u" by (simp add: u_def)
  from x have ax: "\<bar>x\<bar> = x" by simp
  have top: "2 powi (expo x + 1) = 9007199254740992 * u"
    unfolding u_def ax by (rule pow_split(1))
  from expo_upper [OF e] top have "x \<le> of_int 9007199254740992 * u" by simp
  from rnd_at_le [OF u this] have "of_int (round_even (x / u)) * u \<le> 9007199254740992 * u" by simp
  then show ?thesis unfolding top rnd_unfold u_def .
qed

lemma rnd_ge_bot: "0 \<le> x \<Longrightarrow> - 1022 < expo x \<Longrightarrow> 2 powi (expo x) \<le> rnd x"
proof -
  assume x: "0 \<le> x" and e: "- 1022 < expo x"
  define u :: real where "u = 2 powi (expo \<bar>x\<bar> - 52)"
  have u: "0 < u" by (simp add: u_def)
  from x have ax: "\<bar>x\<bar> = x" by simp
  have bot: "2 powi (expo x) = 4503599627370496 * u"
    unfolding u_def ax by (rule pow_split(2))
  from expo_lower [OF e] bot have "of_int 4503599627370496 * u \<le> x" by simp
  from rnd_at_ge [OF u this] have "4503599627370496 * u \<le> of_int (round_even (x / u)) * u" by simp
  then show ?thesis unfolding bot rnd_unfold u_def .
qed

lemma rnd_neg_le: "x \<le> 0 \<Longrightarrow> - 1022 < expo \<bar>x\<bar> \<Longrightarrow> rnd x \<le> - (2 powi (expo \<bar>x\<bar>))"
proof -
  assume x: "x \<le> 0" and e: "- 1022 < expo \<bar>x\<bar>"
  define u :: real where "u = 2 powi (expo \<bar>x\<bar> - 52)"
  have u: "0 < u" by (simp add: u_def)
  have bot: "2 powi (expo \<bar>x\<bar>) = 4503599627370496 * u"
    unfolding u_def by (rule pow_split(2))
  from expo_lower [OF e] have "2 powi (expo \<bar>x\<bar>) \<le> \<bar>x\<bar>" .
  with x bot have "x \<le> of_int (- 4503599627370496) * u" by simp
  from rnd_at_le [OF u this] have "of_int (round_even (x / u)) * u \<le> - (4503599627370496 * u)" by simp
  then show ?thesis unfolding bot rnd_unfold u_def .
qed

lemma rnd_neg_ge: "x \<le> 0 \<Longrightarrow> expo \<bar>x\<bar> < 1024 \<Longrightarrow> - (2 powi (expo \<bar>x\<bar> + 1)) \<le> rnd x"
proof -
  assume x: "x \<le> 0" and e: "expo \<bar>x\<bar> < 1024"
  define u :: real where "u = 2 powi (expo \<bar>x\<bar> - 52)"
  have u: "0 < u" by (simp add: u_def)
  have top: "2 powi (expo \<bar>x\<bar> + 1) = 9007199254740992 * u"
    unfolding u_def by (rule pow_split(1))
  from expo_upper [OF e] have "\<bar>x\<bar> < 2 powi (expo \<bar>x\<bar> + 1)" .
  with x top have "of_int (- 9007199254740992) * u \<le> x" by simp
  from rnd_at_ge [OF u this] have "- (9007199254740992 * u) \<le> of_int (round_even (x / u)) * u" by simp
  then show ?thesis unfolding top rnd_unfold u_def .
qed

lemma rnd_mono_pos: "0 \<le> x \<Longrightarrow> x \<le> y \<Longrightarrow> rnd x \<le> rnd y"
proof -
  assume x: "0 \<le> x" and xy: "x \<le> y"
  then have y: "0 \<le> y" by simp
  from expo_mono [OF xy] have le: "expo x \<le> expo y" .
  show ?thesis
  proof (cases "expo x = expo y")
    case True
    with x y rnd_at_mono [OF ulp_pos xy, of "expo x - 52"] show ?thesis by (simp add: rnd_def)
  next
    case False
    with le have lt: "expo x < expo y" by simp
    with expo_range [of y] have "expo x < 1024" by simp
    from rnd_le_top [OF x this] have 1: "rnd x \<le> 2 powi (expo x + 1)" .
    from lt expo_range [of x] have "- 1022 < expo y" by simp
    from rnd_ge_bot [OF y this] have 2: "2 powi (expo y) \<le> rnd y" .
    from lt have "(2::real) powi (expo x + 1) \<le> 2 powi (expo y)"
      by (intro power_int_increasing) simp_all
    with 1 2 show ?thesis by simp
  qed
qed

lemma rnd_mono_neg: "y \<le> 0 \<Longrightarrow> x \<le> y \<Longrightarrow> rnd x \<le> rnd y"
proof -
  assume y: "y \<le> 0" and xy: "x \<le> y"
  then have x: "x \<le> 0" by simp
  from x y xy have "\<bar>y\<bar> \<le> \<bar>x\<bar>" by simp
  from expo_mono [OF this] have le: "expo \<bar>y\<bar> \<le> expo \<bar>x\<bar>" .
  show ?thesis
  proof (cases "expo \<bar>y\<bar> = expo \<bar>x\<bar>")
    case True
    with rnd_at_mono [OF ulp_pos xy, of "expo \<bar>x\<bar> - 52"] show ?thesis by (simp add: rnd_def)
  next
    case False
    with le have lt: "expo \<bar>y\<bar> < expo \<bar>x\<bar>" by simp
    with expo_range [of "\<bar>x\<bar>"] have "expo \<bar>y\<bar> < 1024" by simp
    from rnd_neg_ge [OF y this] have 1: "- (2 powi (expo \<bar>y\<bar> + 1)) \<le> rnd y" .
    from lt expo_range [of "\<bar>y\<bar>"] have "- 1022 < expo \<bar>x\<bar>" by simp
    from rnd_neg_le [OF x this] have 2: "rnd x \<le> - (2 powi (expo \<bar>x\<bar>))" .
    from lt have "(2::real) powi (expo \<bar>y\<bar> + 1) \<le> 2 powi (expo \<bar>x\<bar>)"
      by (intro power_int_increasing) simp_all
    with 1 2 show ?thesis by simp
  qed
qed

lemma rnd_mono: "x \<le> y \<Longrightarrow> rnd x \<le> rnd y"
proof -
  assume xy: "x \<le> y"
  consider "0 \<le> x" | "y \<le> 0" | "x \<le> 0" "0 \<le> y" by linarith
  then show ?thesis
  proof cases
    case 1
    then show ?thesis using xy by (rule rnd_mono_pos)
  next
    case 2
    then show ?thesis using xy by (rule rnd_mono_neg)
  next
    case 3
    with rnd_nonpos [of x] rnd_nonneg [of y] show ?thesis by simp
  qed
qed

lemma rnd_zero: "rnd 0 = 0"
  by (simp add: rnd_def round_even_def)

lemma rnd_exact:
  "rnd 0 = 0" "rnd (1 / 2) = 1 / 2" "rnd 1 = 1" "rnd 2 = 2" "rnd 8 = 8"
  "rnd (- 1) = - 1" "rnd (- 2) = - 2" "rnd (- 8) = - 8"
  by (rule rnd_zero)
     (simp_all add: rnd_def expo_def expo_up.simps expo_down.simps round_even_def Let_def)

lemma fl_small: "\<bar>x\<bar> \<le> 8 \<Longrightarrow> fl x = Fin (rnd x)"
proof -
  assume "\<bar>x\<bar> \<le> 8"
  then have "- 8 \<le> x" "x \<le> 8" by simp_all
  with rnd_mono [of "- 8" x] rnd_mono [of x 8] have "\<bar>rnd x\<bar> \<le> 8"
    by (simp add: rnd_exact)
  moreover have "(8::real) < 2 ^ 1024" by simp
  ultimately show ?thesis by (simp add: fl_def Let_def)
qed


section \<open>The neighbours of a real on the grid\<close>

lemma rnd_between: "a \<le> x \<Longrightarrow> x \<le> b \<Longrightarrow> rnd a = a \<Longrightarrow> rnd b = b \<Longrightarrow> a \<le> rnd x \<and> rnd x \<le> b"
  using rnd_mono [of a x] rnd_mono [of x b] by simp

lemma prod_bounds:
  "0 \<le> a \<Longrightarrow> a \<le> A \<Longrightarrow> 0 \<le> b \<Longrightarrow> b \<le> B \<Longrightarrow> 0 \<le> a * b \<and> a * b \<le> A * (B::real)"
  by (simp add: mult_mono)


lemma expo_small: "\<bar>x\<bar> < 2 \<Longrightarrow> expo \<bar>x\<bar> \<le> 0"
proof (rule ccontr)
  assume x: "\<bar>x\<bar> < 2" and "\<not> expo \<bar>x\<bar> \<le> 0"
  then have e: "1 \<le> expo \<bar>x\<bar>" by simp
  then have "- 1022 < expo \<bar>x\<bar>" by simp
  from expo_lower [OF this] have "2 powi (expo \<bar>x\<bar>) \<le> \<bar>x\<bar>" .
  moreover from e have "(2::real) powi 1 \<le> 2 powi (expo \<bar>x\<bar>)"
    by (intro power_int_increasing) simp_all
  ultimately show False using x by simp
qed

lemma rnd_down_le: "rnd_down x \<le> x"
proof -
  define u :: real where "u = 2 powi (expo \<bar>x\<bar> - 52)"
  have u: "0 < u" by (simp add: u_def)
  have r: "rnd_down x = real_of_int \<lfloor>x / u\<rfloor> * u" by (simp add: rnd_down_def u_def)
  from u have "real_of_int \<lfloor>x / u\<rfloor> * u \<le> (x / u) * u" by (intro mult_right_mono) simp_all
  with u show ?thesis unfolding r by simp
qed

lemma rnd_up_ge: "x \<le> rnd_up x"
proof -
  define u :: real where "u = 2 powi (expo \<bar>x\<bar> - 52)"
  have u: "0 < u" by (simp add: u_def)
  have r: "rnd_up x = real_of_int \<lceil>x / u\<rceil> * u" by (simp add: rnd_up_def u_def)
  from u have "(x / u) * u \<le> real_of_int \<lceil>x / u\<rceil> * u" by (intro mult_right_mono) simp_all
  with u show ?thesis unfolding r by simp
qed

lemma rnd_down_gt: "x - 2 powi (expo \<bar>x\<bar> - 52) < rnd_down x"
proof -
  define u :: real where "u = 2 powi (expo \<bar>x\<bar> - 52)"
  have u: "0 < u" by (simp add: u_def)
  have r: "rnd_down x = real_of_int \<lfloor>x / u\<rfloor> * u" by (simp add: rnd_down_def u_def)
  have "x / u - 1 < real_of_int \<lfloor>x / u\<rfloor>" by linarith
  with u have "(x / u - 1) * u < real_of_int \<lfloor>x / u\<rfloor> * u" by (intro mult_strict_right_mono)
  moreover from u have "(x / u - 1) * u = x - u" by (simp add: field_simps)
  ultimately have "x - u < rnd_down x" unfolding r by simp
  then show ?thesis by (simp only: u_def)
qed


lemma rnd_down_nonneg: "0 \<le> x \<Longrightarrow> 0 \<le> rnd_down x"
  by (simp add: rnd_down_def)

lemma spacing_small: "\<bar>x\<bar> < 2 \<Longrightarrow> 2 powi (expo \<bar>x\<bar> - 52) \<le> (1 / 2 ^ 52 :: real)"
proof -
  assume "\<bar>x\<bar> < 2"
  from expo_small [OF this] have "(2::real) powi (expo \<bar>x\<bar> - 52) \<le> 2 powi (- 52)"
    by (intro power_int_increasing) simp_all
  then show ?thesis by (simp add: power_int_minus_divide)
qed


lemma grid_unit:
  assumes "e \<le> 0"
  shows "real_of_int (2 ^ nat (52 - e)) * 2 powi (e - 52) = 1"
proof -
  from assms have "real_of_int (2 ^ nat (52 - e)) = 2 powi (52 - e)"
    by (simp add: power_int_def)
  moreover have "(2::real) powi (52 - e) * 2 powi (e - 52) = 2 powi ((52 - e) + (e - 52))"
    by (rule power_int_add [symmetric]) simp
  ultimately show ?thesis by simp
qed

lemma rnd_up_le_one:
  assumes "0 \<le> x" "x \<le> 1"
  shows "rnd_up x \<le> 1"
proof -
  define e where "e = expo \<bar>x\<bar>"
  define u :: real where "u = 2 powi (e - 52)"
  have u: "0 < u" by (simp add: u_def)
  from assms have "\<bar>x\<bar> < 2" by simp
  from expo_small [OF this] have e: "e \<le> 0" by (simp add: e_def)
  from grid_unit [OF e] have one: "real_of_int (2 ^ nat (52 - e)) * u = 1" by (simp add: u_def)
  with u have "1 / u = real_of_int (2 ^ nat (52 - e))" by (simp add: field_simps)
  with assms u have "x / u \<le> real_of_int (2 ^ nat (52 - e))"
    by (metis divide_right_mono less_imp_le)
  then have "\<lceil>x / u\<rceil> \<le> 2 ^ nat (52 - e)" by (simp add: ceiling_le_iff)
  then have "real_of_int \<lceil>x / u\<rceil> \<le> real_of_int (2 ^ nat (52 - e))" by (simp only: of_int_le_iff)
  with u have "real_of_int \<lceil>x / u\<rceil> * u \<le> real_of_int (2 ^ nat (52 - e)) * u"
    by (intro mult_right_mono) simp_all
  with one show ?thesis by (simp add: rnd_up_def u_def e_def)
qed


text \<open>A multiple of \<open>2\<^sup>-\<^sup>5\<^sup>2\<close> of magnitude at most 2 is a binary64 number.\<close>

lemma grid_exact:
  assumes "\<bar>z\<bar> \<le> 2" "z = real_of_int n / 2 ^ 52"
  shows "rnd z = z"
proof (cases "\<bar>z\<bar> < 2")
  case False
  with assms(1) have "z = 2 \<or> z = - 2" by auto
  then show ?thesis by (auto simp add: rnd_exact)
next
  case True
  define e where "e = expo \<bar>z\<bar>"
  define u :: real where "u = 2 powi (e - 52)"
  have u: "0 < u" by (simp add: u_def)
  from expo_small [OF True] have e: "e \<le> 0" by (simp add: e_def)
  from grid_unit [OF e] have one: "real_of_int (2 ^ nat (52 - e)) * u = 1" by (simp add: u_def)
  have "(2::real) powi (e - 52) = 2 powi e / 2 ^ 52" by (simp add: power_int_diff)
  moreover from e have "(2::real) powi e = 1 / 2 ^ nat (- e)"
    by (simp add: power_int_def field_simps)
  ultimately have "u = 1 / (2 ^ nat (- e) * 2 ^ 52)" by (simp add: u_def)
  with assms(2) have "z / u = real_of_int (n * 2 ^ nat (- e))" by simp
  then have "real_of_int (round_even (z / u)) = z / u" by (simp only: round_even_of_int)
  with u show ?thesis by (simp add: rnd_unfold u_def [symmetric] e_def [symmetric])
qed


section \<open>The cube\<close>

lemma pow3_between: "rnd_down (y * y * y) \<le> pow3 up y \<and> pow3 up y \<le> rnd_up (y * y * y)"
  using rnd_down_le [of "y * y * y"] rnd_up_ge [of "y * y * y"] by (simp add: pow3_def)

lemma cube_range: "0 \<le> y \<Longrightarrow> y \<le> 1 \<Longrightarrow> 0 \<le> y * y * y \<and> y * y * y \<le> (1::real)"
  using prod_bounds [of y 1 y 1] prod_bounds [of "y * y" 1 y 1] by simp

lemma pow3_range:
  assumes "0 \<le> y" "y \<le> 1"
  shows "0 \<le> pow3 up y \<and> pow3 up y \<le> 1"
proof -
  from cube_range [OF assms] have c: "0 \<le> y * y * y" "y * y * y \<le> 1" by simp_all
  from rnd_down_nonneg [OF c(1)] rnd_up_le_one [OF c] pow3_between [of y up]
  show ?thesis by simp
qed


lemma pow3_exact [simp]: "pow3 up 0 = 0" "pow3 up 1 = 1"
  by (simp_all add: pow3_def rnd_up_def rnd_down_def expo_def expo_up.simps)

lemma js_pow3_unit: "0 \<le> y \<Longrightarrow> y \<le> 1 \<Longrightarrow> js_pow3 up (Fin y) = Fin (pow3 up y)"
proof -
  assume "0 \<le> y" "y \<le> 1"
  from pow3_range [OF this, of up] have "\<bar>pow3 up y\<bar> \<le> 1" by simp
  moreover have "(1::real) < 2 ^ 1024" by simp
  ultimately have "\<not> 2 ^ 1024 \<le> \<bar>pow3 up y\<bar>" by linarith
  then show ?thesis by simp
qed



section \<open>The easing function\<close>

lemma cubic_in_steps:
  assumes "0 \<le> x" "x \<le> 1 / 2"
  shows "0 \<le> rnd (4 * x) \<and> rnd (4 * x) \<le> 2"
    and "0 \<le> rnd (rnd (4 * x) * x) \<and> rnd (rnd (4 * x) * x) \<le> 1"
    and "0 \<le> cubic_in x \<and> cubic_in x \<le> 1 / 2"
proof -
  from assms show 1: "0 \<le> rnd (4 * x) \<and> rnd (4 * x) \<le> 2"
    by (intro rnd_between) (simp_all add: rnd_exact)
  with assms prod_bounds [of "rnd (4 * x)" 2 x "1 / 2"]
  have "0 \<le> rnd (4 * x) * x" "rnd (4 * x) * x \<le> 1"
    by simp_all
  then show 2: "0 \<le> rnd (rnd (4 * x) * x) \<and> rnd (rnd (4 * x) * x) \<le> 1"
    by (intro rnd_between) (simp_all add: rnd_exact)
  with assms prod_bounds [of "rnd (rnd (4 * x) * x)" 1 x "1 / 2"]
  have "0 \<le> rnd (rnd (4 * x) * x) * x" "rnd (rnd (4 * x) * x) * x \<le> 1 / 2"
    by simp_all
  then show "0 \<le> cubic_in x \<and> cubic_in x \<le> 1 / 2"
    unfolding cubic_in_def by (intro rnd_between) (simp_all add: rnd_exact)
qed

lemma ease_in:
  assumes "0 \<le> x" "x < 1 / 2"
  shows "easeInOutCubic up (Fin x) = Fin (cubic_in x)"
proof -
  from assms have x: "0 \<le> x" "x \<le> 1 / 2" by simp_all
  note s = cubic_in_steps [OF x]
  from x have 1: "fl (4 * x) = Fin (rnd (4 * x))" by (intro fl_small) simp
  from s(1) x prod_bounds [of "rnd (4 * x)" 2 x "1 / 2"]
  have "\<bar>rnd (4 * x) * x\<bar> \<le> 1" by simp
  then have 2: "fl (rnd (4 * x) * x) = Fin (rnd (rnd (4 * x) * x))" by (intro fl_small) simp
  from s(2) x prod_bounds [of "rnd (rnd (4 * x) * x)" 1 x "1 / 2"]
  have "\<bar>rnd (rnd (4 * x) * x) * x\<bar> \<le> 1 / 2" by simp
  then have 3: "fl (rnd (rnd (4 * x) * x) * x) = Fin (cubic_in x)"
    unfolding cubic_in_def by (intro fl_small) simp
  from assms 1 2 3 show ?thesis by (simp add: easeInOutCubic_def)
qed


lemma cubic_out_steps:
  assumes "1 / 2 \<le> x" "x \<le> 1"
  shows "- 2 \<le> rnd (- 2 * x) \<and> rnd (- 2 * x) \<le> - 1"
    and "0 \<le> rnd (rnd (- 2 * x) + 2) \<and> rnd (rnd (- 2 * x) + 2) \<le> 1"
    and "0 \<le> pow3 up (rnd (rnd (- 2 * x) + 2)) \<and> pow3 up (rnd (rnd (- 2 * x) + 2)) \<le> 1"
    and "0 \<le> rnd (pow3 up (rnd (rnd (- 2 * x) + 2)) / 2)
         \<and> rnd (pow3 up (rnd (rnd (- 2 * x) + 2)) / 2) \<le> 1 / 2"
    and "1 / 2 \<le> cubic_out up x \<and> cubic_out up x \<le> 1"
proof -
  let ?b1 = "rnd (- 2 * x)"
  let ?b2 = "rnd (?b1 + 2)"
  let ?b3 = "pow3 up ?b2"
  let ?b4 = "rnd (?b3 / 2)"
  from assms show 1: "- 2 \<le> ?b1 \<and> ?b1 \<le> - 1"
    by (intro rnd_between) (simp_all add: rnd_exact)
  then show 2: "0 \<le> ?b2 \<and> ?b2 \<le> 1"
    by (intro rnd_between) (simp_all add: rnd_exact)
  then show 3: "0 \<le> ?b3 \<and> ?b3 \<le> 1"
    by (intro pow3_range) simp_all
  then show 4: "0 \<le> ?b4 \<and> ?b4 \<le> 1 / 2"
    by (intro rnd_between) (simp_all add: rnd_exact)
  then show "1 / 2 \<le> cubic_out up x \<and> cubic_out up x \<le> 1"
    unfolding cubic_out_def by (intro rnd_between) (simp_all add: rnd_exact)
qed

lemma ease_out:
  assumes "1 / 2 \<le> x" "x \<le> 1"
  shows "easeInOutCubic up (Fin x) = Fin (cubic_out up x)"
proof -
  let ?b1 = "rnd (- 2 * x)"
  let ?b2 = "rnd (?b1 + 2)"
  let ?b3 = "pow3 up ?b2"
  let ?b4 = "rnd (?b3 / 2)"
  note s = cubic_out_steps [OF assms]
  from assms have 1: "fl (- 2 * x) = Fin ?b1" by (intro fl_small) simp
  from s(1) have 2: "fl (?b1 + 2) = Fin ?b2" by (intro fl_small) simp
  from s(2) have 3: "js_pow3 up (Fin ?b2) = Fin ?b3" by (intro js_pow3_unit) simp_all
  from s(3) [of up] have 4: "fl (?b3 / 2) = Fin ?b4" by (intro fl_small) simp
  from s(4) [of up] have 5: "fl (1 + - ?b4) = Fin (cubic_out up x)"
    unfolding cubic_out_def by (simp add: fl_small)
  from assms have "\<not> x < 1 / 2" by simp
  with 1 2 3 4 5 show ?thesis
    by (simp add: easeInOutCubic_def js_sub_def del: js_pow3.simps)
qed















section \<open>The ticks of the slider\<close>

lemma rnd_999: "1 / 2 \<le> rnd (999 / 1000) \<and> rnd (999 / 1000) \<le> 1"
  by (intro rnd_between) (simp_all add: rnd_exact)

lemma rnd_exact_1024: "rnd 1024 = 1024" "rnd (- 1024) = - 1024"
  by (simp_all add: rnd_def expo_def expo_up.simps expo_down.simps round_even_def Let_def)

lemma fl_mid: "\<bar>x\<bar> \<le> 1024 \<Longrightarrow> fl x = Fin (rnd x)"
proof -
  assume "\<bar>x\<bar> \<le> 1024"
  then have "- 1024 \<le> x" "x \<le> 1024" by simp_all
  with rnd_mono [of "- 1024" x] rnd_mono [of x 1024] have "\<bar>rnd x\<bar> \<le> 1024"
    by (simp add: rnd_exact_1024)
  moreover have "(1024::real) < 2 ^ 1024" by simp
  ultimately show ?thesis by (simp add: fl_def Let_def)
qed

text \<open>
  Up to the binary64 number next to 0.999 the second branch stays below 1: the
  base of the cube is at least \<open>2\<^sup>-\<^sup>1\<^sup>0\<close> there, so that half the cube, whichever
  neighbour the engine returns, is not lost in the subtraction from 1.
\<close>

lemma cubic_out_below_one:
  assumes "1 / 2 \<le> x" "x \<le> rnd (999 / 1000)"
  shows "cubic_out up x < 1"
proof -
  define b2 where "b2 = rnd (rnd (- 2 * x) + 2)"
  define c where "c = b2 * b2 * b2"
  from assms rnd_999 have x1: "x \<le> 1" by simp
  from assms have "rnd (- 2 * rnd (999 / 1000)) \<le> rnd (- 2 * x)" by (intro rnd_mono) simp
  then have "rnd (rnd (- 2 * rnd (999 / 1000)) + 2) \<le> b2" unfolding b2_def by (intro rnd_mono) simp
  moreover have "1 / 1024 \<le> rnd (rnd (- 2 * rnd (999 / 1000)) + 2)"
    by (simp add: rnd_def expo_def expo_up.simps expo_down.simps round_even_def Let_def)
  ultimately have lo: "1 / 1024 \<le> b2" by simp
  from cubic_out_steps(2) [OF assms(1) x1] have hi: "0 \<le> b2" "b2 \<le> 1" by (simp_all add: b2_def)
  have "(1 / 1024) * (1 / 1024) * (1 / 1024) \<le> b2 * b2 * b2"
    using lo by (intro mult_mono) simp_all
  then have cl: "1 / 2 ^ 30 \<le> c" by (simp add: c_def)
  from cube_range [OF hi] have "\<bar>c\<bar> < 2" by (simp add: c_def)
  from spacing_small [OF this] have "2 powi (expo \<bar>c\<bar> - 52) \<le> (1 / 2 ^ 52 :: real)" .
  with rnd_down_gt [of c] have "c - 1 / 2 ^ 52 < rnd_down c" by simp
  with pow3_between [of b2 up] have "c - 1 / 2 ^ 52 < pow3 up b2" by (simp add: c_def)
  with cl have "1 / 2 ^ 31 \<le> pow3 up b2" by simp
  then have "rnd ((1 / 2 ^ 31) / 2) \<le> rnd (pow3 up b2 / 2)" by (intro rnd_mono) simp
  moreover have "rnd ((1 / 2 ^ 31) / 2) = 1 / 2 ^ 32"
    by (intro trans [OF _ grid_exact [of "1 / 2 ^ 32" "2 ^ 20"]]) simp_all
  ultimately have "1 / 2 ^ 32 \<le> rnd (pow3 up b2 / 2)" by simp
  then have "rnd (1 - rnd (pow3 up b2 / 2)) \<le> rnd (1 - 1 / 2 ^ 32)" by (intro rnd_mono) simp
  moreover have "rnd (1 - 1 / 2 ^ 32) = 1 - 1 / 2 ^ 32"
    by (intro grid_exact [of _ "2 ^ 52 - 2 ^ 20"]) simp_all
  ultimately have "cubic_out up x \<le> 1 - 1 / 2 ^ 32" by (simp add: cubic_out_def b2_def)
  then show ?thesis by simp
qed

text \<open>
  In the slider the duration is 1000 ms.  A tick that runs \<open>k\<close> milliseconds
  after the start, with \<open>0 \<le> k \<le> 999\<close>, passes an eased value below 1, so the
  callback does not take it for the end of the animation.
\<close>

lemma slider_tick_below_one:
  assumes "0 \<le> k" "k \<le> 999"
  shows "\<exists>u. easeInOutCubic up (js_div (js_sub (clock (b + k)) (clock b)) (Fin 1000)) = Fin u \<and> u < 1"
proof -
  define r where "r = rnd (of_int k)"
  define x where "x = rnd (r / 1000)"
  from assms have k: "(0::real) \<le> of_int k" "(of_int k :: real) \<le> 999" by simp_all
  then have "\<bar>of_int k :: real\<bar> \<le> 1024" by simp
  then have sub: "js_sub (clock (b + k)) (clock b) = Fin r"
    by (simp add: js_sub_def clock_def fl_mid r_def)
  have "rnd 999 = 999"
    by (simp add: rnd_def expo_def expo_up.simps expo_down.simps round_even_def Let_def)
  with rnd_mono [OF k(2)] rnd_nonneg [OF k(1)] have r: "0 \<le> r" "r \<le> 999" by (simp_all add: r_def)
  then have q: "0 \<le> r / 1000" "r / 1000 \<le> 999 / 1000" by simp_all
  then have "\<bar>r / 1000\<bar> \<le> 8" by simp
  then have dv: "js_div (Fin r) (Fin 1000) = Fin x" by (simp add: fl_small x_def)
  have x0: "0 \<le> x" unfolding x_def using q(1) by (rule rnd_nonneg)
  have xm: "x \<le> rnd (999 / 1000)" unfolding x_def using q(2) by (rule rnd_mono)
  with rnd_999 have x1: "x \<le> 1" by simp
  show ?thesis
  proof (cases "x < 1 / 2")
    case True
    with x0 cubic_in_steps(3) [of x] ease_in [of x up] have
      "easeInOutCubic up (Fin x) = Fin (cubic_in x)" "cubic_in x < 1" by simp_all
    then show ?thesis unfolding sub dv by blast
  next
    case False
    with x1 ease_out [of x up] have e: "easeInOutCubic up (Fin x) = Fin (cubic_out up x)" by simp
    from False xm cubic_out_below_one [of x up] have "cubic_out up x < 1" by simp
    with e show ?thesis unfolding sub dv by blast
  qed
qed


section \<open>The geometry readers return numbers\<close>

lemma coerced_js_or:
  "is_number p \<or> \<not> truthy p \<Longrightarrow> coerced p (js_or p (JNum (Fin 0)))"
  by (cases p) (auto simp: coerced_def js_or_def)

text \<open>
  Claim C10.  For an element (a non-null object whose layout properties are
  numbers where present, or else missing or falsy) the three readers return a
  record: \<open>getScroll\<close> does not throw, and each of the four fields of each
  reader is a number other than NaN, equal to 0 when the property behind it is
  missing, undefined or otherwise falsy and to the property itself otherwise.
\<close>

theorem geometry_readers_numbers:
  assumes "\<forall>name. is_number (el name) \<or> \<not> truthy (el name)"
  shows "(\<exists>r. getScroll h (Some el) = Inr r
            \<and> coerced (el ''scrollTop'') (r_top r) \<and> coerced (el ''scrollLeft'') (r_left r)
            \<and> coerced (el ''scrollHeight'') (r_height r) \<and> coerced (el ''scrollWidth'') (r_width r))
       \<and> coerced (el ''offsetTop'') (r_top (getOffset el))
       \<and> coerced (el ''offsetLeft'') (r_left (getOffset el))
       \<and> coerced (el ''offsetHeight'') (r_height (getOffset el))
       \<and> coerced (el ''offsetWidth'') (r_width (getOffset el))
       \<and> coerced (el ''clientTop'') (r_top (getClient el))
       \<and> coerced (el ''clientLeft'') (r_left (getClient el))
       \<and> coerced (el ''clientHeight'') (r_height (getClient el))
       \<and> coerced (el ''clientWidth'') (r_width (getClient el))"
  using assms by (simp add: getScroll_def getOffset_def getClient_def coerced_js_or)

theorem geometry_readers_numbers_witness:
  "(\<forall>name. is_number ((\<lambda>n. if n = ''offsetLeft'' then JNum (Fin 40) else JUndefined) name)
        \<or> \<not> truthy ((\<lambda>n. if n = ''offsetLeft'' then JNum (Fin 40) else JUndefined) name))
   \<and> r_left (getOffset (\<lambda>n. if n = ''offsetLeft'' then JNum (Fin 40) else JUndefined)) = JNum (Fin 40)
   \<and> r_top (getOffset (\<lambda>n. if n = ''offsetLeft'' then JNum (Fin 40) else JUndefined)) = JNum (Fin 0)
   \<and> is_number (r_width (getClient (\<lambda>n. if n = ''offsetLeft'' then JNum (Fin 40) else JUndefined)))"
proof -
  let ?el = "\<lambda>n. if n = ''offsetLeft'' then JNum (Fin 40) else JUndefined"
  have typed: "\<forall>name. is_number (?el name) \<or> \<not> truthy (?el name)"
    by simp
  from geometry_readers_numbers [OF typed]
  show ?thesis
    by (simp add: coerced_def)
qed

end
